theory Spec2Isabelle
  imports Complex_Main "HOL-Library.AList" "HOL-Library.Multiset"
begin

section \<open>Values of the Go program\<close>

text \<open>
  The analytics exporter (package \<open>prometheus\<close>, files \<open>prometheus_helper.go\<close> and the
  collector) is embedded as pure functions. Strings are byte strings, Go's \<open>int\<close> and
  \<open>int64\<close> counters are \<open>int\<close> (a counter never exceeds the number of events held in
  memory, so the 64-bit wrap-around is out of reach), a Go map is an association list
  with one entry per key (iteration order of a Go map is unspecified; the list order is
  one of the possible orders), and every \<open>return nil, err\<close> and every panic is a value
  \<open>Inl err\<close>.
\<close>

datatype error =
    InvalidArgument string
  | StoreError string
  | ExtractError string
  | IndexOutOfRange
  | NilDesc string
  | InconsistentCardinality string

type_synonym 'v gomap = "(string \<times> 'v) list"

text \<open>\<open>m[k]++\<close> on a \<open>map[string]int\<close>: a missing key reads as the zero value.\<close>

definition incr :: "int gomap \<Rightarrow> string \<Rightarrow> int gomap" where
  "incr m k = AList.update k ((case map_of m k of None \<Rightarrow> 0 | Some c \<Rightarrow> c) + 1) m"

text \<open>The value read at a key (zero when absent) and the sum of all values.\<close>

definition at_key :: "int gomap \<Rightarrow> string \<Rightarrow> int" where
  "at_key m k = (case map_of m k of None \<Rightarrow> 0 | Some c \<Rightarrow> c)"

definition sum_values :: "int gomap \<Rightarrow> int" where
  "sum_values m = sum_list (map snd m)"

subsection \<open>Events (message \<open>Event\<close> of the protobuf schema)\<close>

text \<open>
  \<open>Device\<close> is a \<open>oneof\<close> of four booleans; the oneof may be unset, and the event's
  \<open>Device\<close> pointer may be nil (\<open>None\<close>). The generated getters return \<open>false\<close> unless
  the oneof holds their own case.
\<close>

datatype device = Device_Unset | Device_Tablet bool | Device_Mobile bool
  | Device_Desktop bool | Device_Bot bool

fun GetDesktop :: "device option \<Rightarrow> bool" where
  "GetDesktop (Some (Device_Desktop b)) = b"
| "GetDesktop _ = False"

fun GetMobile :: "device option \<Rightarrow> bool" where
  "GetMobile (Some (Device_Mobile b)) = b"
| "GetMobile _ = False"

fun GetTablet :: "device option \<Rightarrow> bool" where
  "GetTablet (Some (Device_Tablet b)) = b"
| "GetTablet _ = False"

fun GetBot :: "device option \<Rightarrow> bool" where
  "GetBot (Some (Device_Bot b)) = b"
| "GetBot _ = False"

text \<open>
  \<open>Timestamp\<close> is the instant \<open>e.GetTimestamp().AsTime()\<close> in nanoseconds since the Unix
  epoch (a nil timestamp reads as 0). The field \<open>Domain\<close> is named \<open>Domain_ev\<close> here.
\<close>

record event =
  ID :: string
  Type :: string
  URL :: string
  Domain_ev :: string
  Referrer :: string
  Browser :: string
  OS :: string
  Device :: "device option"
  HashedVisit :: string
  Meta :: "(string \<times> string) list"
  Props :: "(string \<times> string) list"
  Timestamp :: int

subsection \<open>Durations (\<open>time.Duration\<close>: signed 64-bit nanoseconds)\<close>

definition minDuration :: int where "minDuration = - (2 ^ 63)"
definition maxDuration :: int where "maxDuration = 2 ^ 63 - 1"

definition Minute :: int where "Minute = 60 * 1000000000"

text \<open>\<open>const VisitDuration = time.Minute * 30\<close>\<close>

definition VisitDuration :: int where "VisitDuration = Minute * 30"

text \<open>\<open>t.Sub(u)\<close> saturates at the ends of the duration range.\<close>

definition Sub :: "int \<Rightarrow> int \<Rightarrow> int" where
  "Sub t u = (let d = t - u in
     if minDuration \<le> d \<and> d \<le> maxDuration then d
     else if t < u then minDuration else maxDuration)"

text \<open>\<open>d.Abs()\<close>: the smallest duration has no negation and becomes the largest.\<close>

definition Abs :: "int \<Rightarrow> int" where
  "Abs d = (if d \<ge> 0 then d else if d = minDuration then maxDuration else - d)"

text \<open>\<open>time.Since(t)\<close> is \<open>time.Now().Sub(t)\<close>; the clock reading is a parameter.\<close>

definition Since :: "int \<Rightarrow> int \<Rightarrow> int" where
  "Since now t = Sub now t"

subsection \<open>\<open>float64\<close> quotients\<close>

text \<open>
  The only floating-point operation of the program is \<open>float64(a) / float64(b)\<close> on two
  integers. Its IEEE special results are kept apart; a finite result is represented by
  the exact quotient (the rounding to the nearest \<open>float64\<close> is not modelled: it is
  monotone and leaves 0 and 1 fixed).
\<close>

datatype float64 = NaN | PosInf | NegInf | Finite real

definition float64_of_int :: "int \<Rightarrow> float64" where
  "float64_of_int n = Finite (of_int n)"

definition float64_div :: "int \<Rightarrow> int \<Rightarrow> float64" where
  "float64_div a b =
     (if b = 0 then (if a = 0 then NaN else if a > 0 then PosInf else NegInf)
      else Finite (of_int a / of_int b))"

section \<open>The domain and path normalizer\<close>

subsection \<open>Regular expressions\<close>

text \<open>
  The expressions of the program use literals, the negated class of one character
  (which matches a line feed too), the dot (any character but a line feed), the end
  of the text, sequence, and the greedy operators \<^verbatim>\<open>?\<close> and \<^verbatim>\<open>*\<close>; \<^verbatim>\<open>x+\<close> is
  \<^verbatim>\<open>xx*\<close>. \<open>rests r s\<close> lists what is left of \<open>s\<close> after each way \<open>r\<close> matches at its
  start, in the order in which a backtracking matcher tries them: an optional or
  repeated part is tried before its omission. An iteration of \<^verbatim>\<open>*\<close> that consumes
  nothing is not repeated.
\<close>

datatype rx = Lit string | NotChr char | AnyNotNL | EndText | Seq rx rx | Opt rx | Star rx

fun rests :: "rx \<Rightarrow> string \<Rightarrow> string list" where
  "rests (Lit l) s = (if take (length l) s = l then [drop (length l) s] else [])"
| "rests (NotChr c) s = (case s of [] \<Rightarrow> [] | x # t \<Rightarrow> if x \<noteq> c then [t] else [])"
| "rests AnyNotNL s = (case s of [] \<Rightarrow> [] | x # t \<Rightarrow> if x \<noteq> CHR 0x0A then [t] else [])"
| "rests EndText s = (if s = [] then [s] else [])"
| "rests (Seq a b) s = concat (map (rests b) (rests a s))"
| "rests (Opt a) s = rests a s @ [s]"
| "rests (Star a) s =
     concat (map (\<lambda>r. if length r < length s then rests (Star a) r else []) (rests a s)) @ [s]"

subsection \<open>\<open>extractDomainAndPath\<close>\<close>

text \<open>
  The expression \<^verbatim>\<open>(?:https?://)?([^/]+)(.*)\<close> in its three parts: the optional
  scheme, the first group and the second group.
\<close>

definition scheme_rx :: rx where
  "scheme_rx = Opt (Seq (Lit ''http'') (Seq (Opt (Lit ''s'')) (Lit ''://'')))"

definition host_rx :: rx where
  "host_rx = Seq (NotChr (CHR ''/'')) (Star (NotChr (CHR ''/'')))"

definition path_rx :: rx where
  "path_rx = Star AnyNotNL"

text \<open>
  The match at the start of \<open>s\<close>: the first way to match the three parts in turn,
  with the text of the two groups.
\<close>

definition submatch_at :: "string \<Rightarrow> (string \<times> string) option" where
  "submatch_at s =
     (case [(take (length r1 - length r2) r1, take (length r2 - length r3) r2).
              r1 \<leftarrow> rests scheme_rx s, r2 \<leftarrow> rests host_rx r1, r3 \<leftarrow> rests path_rx r2] of
        [] \<Rightarrow> None
      | m # _ \<Rightarrow> Some m)"

text \<open>
  \<open>FindStringSubmatch\<close> returns the leftmost match: every start position is tried in
  turn, the end of the string included.
\<close>

fun FindStringSubmatch :: "string \<Rightarrow> (string \<times> string) option" where
  "FindStringSubmatch [] = submatch_at []"
| "FindStringSubmatch (c # t) =
     (case submatch_at (c # t) of
        Some m \<Rightarrow> Some m
      | None \<Rightarrow> FindStringSubmatch t)"

definition extractDomainAndPath :: "string \<Rightarrow> error + (string \<times> string)" where
  "extractDomainAndPath link =
     (case FindStringSubmatch link of
        None \<Rightarrow> Inl (ExtractError link)
      | Some (domain, path) \<Rightarrow> Inr (domain, if path = [] then ''/'' else path))"

subsection \<open>The page key\<close>

text \<open>
  The expression \<^verbatim>\<open>\.html$\<close>; without the multi-line flag \<^verbatim>\<open>$\<close> is the end of the
  text. \<open>ReplaceAllString\<close> scans the string from the left and replaces every match.
  The branch for a match that consumes nothing is written for totality only: the
  expression of the program matches no empty string.
\<close>

definition html_rx :: rx where
  "html_rx = Seq (Lit ''.html'') EndText"

fun ReplaceAllString :: "rx \<Rightarrow> string \<Rightarrow> string \<Rightarrow> string" where
  "ReplaceAllString re [] repl = (if rests re [] = [] then [] else repl)"
| "ReplaceAllString re (c # t) repl =
     (case rests re (c # t) of
        [] \<Rightarrow> c # ReplaceAllString re t repl
      | r # _ \<Rightarrow>
          if length r < length (c # t) then repl @ ReplaceAllString re r repl
          else repl @ c # ReplaceAllString re t repl)"

subsection \<open>The source label\<close>

text \<open>\<open>strings.Split(s, ".")\<close>, for a separator of one byte.\<close>

fun Split :: "string \<Rightarrow> char \<Rightarrow> string list" where
  "Split [] sep = [[]]"
| "Split (c # s) sep =
     (if c = sep then [] # Split s sep
      else (case Split s sep of
              w # ws \<Rightarrow> (c # w) # ws
            | [] \<Rightarrow> [[c]]))"

section \<open>The aggregation loop of \<open>GetAnalyticsStats\<close>\<close>

record visit =
  EntryPage :: string
  ExitPage :: string
  PagesVisited :: int
  LastPageViewTimestamp :: int

text \<open>The local variables of the first loop.\<close>

record counters =
  pageViewsCount :: int
  pages :: "int gomap"
  sources :: "int gomap"
  devices :: "int gomap"
  oss :: "int gomap"
  browsers :: "int gomap"
  visitsMap :: "visit list gomap"

definition no_counters :: counters where
  "no_counters = \<lparr>pageViewsCount = 0, pages = [], sources = [], devices = [], oss = [],
     browsers = [], visitsMap = []\<rparr>"

definition new_visit :: "string \<Rightarrow> int \<Rightarrow> visit" where
  "new_visit urlPath ts =
     \<lparr>EntryPage = urlPath, ExitPage = urlPath, PagesVisited = 1, LastPageViewTimestamp = ts\<rparr>"

text \<open>
  The session step (\<open>// count a total of visitsMap\<close>). The slice holds pointers, so the
  assignments to \<open>lastVisit\<close> change the last element of the fingerprint's slice in
  place. \<open>v[len(v)-1]\<close> panics on an empty slice.
\<close>

definition count_visit :: "visit list gomap \<Rightarrow> event \<Rightarrow> string \<Rightarrow> error + visit list gomap" where
  "count_visit vm e urlPath =
     (case map_of vm (HashedVisit e) of
        None \<Rightarrow> Inr (AList.update (HashedVisit e) [new_visit urlPath (Timestamp e)] vm)
      | Some v \<Rightarrow>
          if v = [] then Inl IndexOutOfRange
          else
            let lastVisit = last v in
            if Sub (Timestamp e) (LastPageViewTimestamp lastVisit) > VisitDuration
            then Inr (AList.update (HashedVisit e) (v @ [new_visit urlPath (Timestamp e)]) vm)
            else Inr (AList.update (HashedVisit e)
                   (butlast v @ [lastVisit\<lparr>ExitPage := urlPath,
                       PagesVisited := PagesVisited lastVisit + 1,
                       LastPageViewTimestamp := Timestamp e\<rparr>]) vm))"

text \<open>
  The short label of a referrer host: with more than one dot-separated label, the list
  is reversed and the labels at index 1 and 0 are joined by a dot.
\<close>

definition referrer_label :: "string \<Rightarrow> string" where
  "referrer_label fullReferrerDomain =
     (let referrerDomains = Split fullReferrerDomain (CHR ''.'') in
      if length referrerDomains > 1
      then (rev referrerDomains ! 1) @ ''.'' @ (rev referrerDomains ! 0)
      else fullReferrerDomain)"

definition count_source :: "int gomap \<Rightarrow> string \<Rightarrow> string \<Rightarrow> error + int gomap" where
  "count_source src fullUrlDomain referrer =
     (if referrer = [] then Inr (incr src ''Direct/None'')
      else
        case extractDomainAndPath referrer of
          Inl err \<Rightarrow> Inl err
        | Inr (fullReferrerDomain, _) \<Rightarrow>
            let referrerDomain = referrer_label fullReferrerDomain in
            if fullUrlDomain \<noteq> fullReferrerDomain then Inr (incr src referrerDomain)
            else Inr src)"

definition device_bucket :: "device option \<Rightarrow> string" where
  "device_bucket d =
     (if GetDesktop d then ''Desktop''
      else if GetMobile d then ''Mobile''
      else if GetTablet d then ''Tablet''
      else if GetBot d then ''Bot''
      else ''Unknown'')"

definition os_bucket :: "string \<Rightarrow> string" where
  "os_bucket os = (if os \<noteq> [] then os else ''Unknown'')"

definition browser_bucket :: "string \<Rightarrow> string" where
  "browser_bucket browser = (if browser \<noteq> [] then browser else ''Unknown'')"

text \<open>One iteration of \<open>for _, e := range sortedEvents\<close>.\<close>

definition count_event :: "counters \<Rightarrow> event \<Rightarrow> error + counters" where
  "count_event a e =
     (let a1 = (if Type e = ''pageview''
                then a\<lparr>pageViewsCount := pageViewsCount a + 1\<rparr> else a) in
      case extractDomainAndPath (URL e) of
        Inl err \<Rightarrow> Inl err
      | Inr (fullUrlDomain, path) \<Rightarrow>
          let urlPath = ReplaceAllString html_rx path [];
              a2 = a1\<lparr>pages := incr (pages a1) urlPath\<rparr> in
          (case count_visit (visitsMap a2) e urlPath of
             Inl err \<Rightarrow> Inl err
           | Inr vm \<Rightarrow>
               let a3 = a2\<lparr>visitsMap := vm\<rparr> in
               (case count_source (sources a3) fullUrlDomain (Referrer e) of
                  Inl err \<Rightarrow> Inl err
                | Inr src \<Rightarrow>
                    Inr (a3\<lparr>sources := src,
                           devices := incr (devices a3) (device_bucket (Device e)),
                           oss := incr (oss a3) (os_bucket (OS e)),
                           browsers := incr (browsers a3) (browser_bucket (Browser e))\<rparr>))))"

fun count_events :: "counters \<Rightarrow> event list \<Rightarrow> error + counters" where
  "count_events a [] = Inr a"
| "count_events a (e # es) =
     (case count_event a e of
        Inl err \<Rightarrow> Inl err
      | Inr a' \<Rightarrow> count_events a' es)"

subsection \<open>The pass over the sessions\<close>

record visit_totals =
  entryPages :: "int gomap"
  exitPages :: "int gomap"
  totalVisits :: int
  onePageVisits :: int
  currentVisitors :: int

definition no_totals :: visit_totals where
  "no_totals = \<lparr>entryPages = [], exitPages = [], totalVisits = 0, onePageVisits = 0,
     currentVisitors = 0\<rparr>"

definition count_session :: "int \<Rightarrow> visit \<Rightarrow> visit_totals \<Rightarrow> visit_totals" where
  "count_session now visit t =
     (let t1 = (if PagesVisited visit = 1
                then t\<lparr>onePageVisits := onePageVisits t + 1\<rparr> else t);
          t2 = (if Abs (Since now (LastPageViewTimestamp visit)) < 5 * Minute
                then t1\<lparr>currentVisitors := currentVisitors t1 + 1\<rparr> else t1)
      in t2\<lparr>entryPages := incr (entryPages t2) (EntryPage visit),
             exitPages := incr (exitPages t2) (ExitPage visit),
             totalVisits := totalVisits t2 + 1\<rparr>)"

text \<open>\<open>for _, visits := range visitsMap { for _, visit := range visits { ... } }\<close>\<close>

definition count_sessions :: "int \<Rightarrow> visit list gomap \<Rightarrow> visit_totals" where
  "count_sessions now vm =
     fold (\<lambda>(fingerprint, visits) t. fold (count_session now) visits t) vm no_totals"

subsection \<open>The snapshot\<close>

text \<open>A map field is \<open>None\<close> when the Go map is nil.\<close>

record AnalyticsStats =
  UniqueVisitors :: int
  TotalVisits :: int
  TotalPageViews :: int
  CurrentVisitors :: int
  BounceRate :: float64
  PagesRate :: "int gomap option"
  SourcesRate :: "int gomap option"
  DevicesRate :: "int gomap option"
  OSsRate :: "int gomap option"
  BrowsersRate :: "int gomap option"
  EntryPagesRate :: "int gomap option"
  ExitPagesRate :: "int gomap option"

text \<open>
  The store is its \<open>List\<close> method at the time of the call; \<open>None\<close> is the nil interface,
  and a nil list of events reads as the empty list. \<open>sort.Slice\<close> orders the events by
  \<open>Before\<close> on their timestamps and is not stable; the stable \<open>sort_key\<close> stands for
  it, and the properties of the loop below are proved for every order of the events.
  \<open>time.Now()\<close> is the parameter \<open>now\<close>.
\<close>

type_synonym database = "string \<Rightarrow> error + event list"

definition make_stats :: "int \<Rightarrow> counters \<Rightarrow> AnalyticsStats" where
  "make_stats now a =
     (let t = count_sessions now (visitsMap a) in
      \<lparr>UniqueVisitors = int (length (visitsMap a)),
       TotalVisits = totalVisits t,
       TotalPageViews = pageViewsCount a,
       CurrentVisitors = currentVisitors t,
       BounceRate = float64_div (onePageVisits t) (pageViewsCount a),
       PagesRate = Some (pages a),
       SourcesRate = Some (sources a),
       DevicesRate = Some (devices a),
       OSsRate = Some (oss a),
       BrowsersRate = Some (browsers a),
       EntryPagesRate = Some (entryPages t),
       ExitPagesRate = Some (exitPages t)\<rparr>)"

definition GetAnalyticsStats :: "database option \<Rightarrow> string \<Rightarrow> int \<Rightarrow> error + AnalyticsStats" where
  "GetAnalyticsStats db domain now =
     (case db of
        None \<Rightarrow> Inl (InvalidArgument ''database is nil'')
      | Some d \<Rightarrow>
          (case d domain of
             Inl err \<Rightarrow> Inl err
           | Inr events \<Rightarrow>
               let sortedEvents = sort_key Timestamp events in
               (case count_events no_counters sortedEvents of
                  Inl err \<Rightarrow> Inl err
                | Inr a \<Rightarrow> Inr (make_stats now a))))"

section \<open>The metrics collector\<close>

text \<open>
  A descriptor (\<open>prometheus.NewDesc(fqName, help, variableLabels, constLabels)\<close>) and a
  sample (\<open>prometheus.MustNewConstMetric(desc, valueType, value, labelValues...)\<close>). The
  logger and the mutex of the collector are left out: one call is modelled at a time.
\<close>

record Desc =
  fqName :: string
  helpText :: string
  variableLabels :: "string list"
  constLabels :: "(string \<times> string) list"

definition NewDesc :: "string \<Rightarrow> string \<Rightarrow> string list \<Rightarrow> (string \<times> string) list \<Rightarrow> Desc" where
  "NewDesc name hlp vars consts =
     \<lparr>fqName = name, helpText = hlp, variableLabels = vars, constLabels = consts\<rparr>"

datatype ValueType = CounterValue | GaugeValue

record Metric =
  desc :: Desc
  valType :: ValueType
  val :: float64
  labelValues :: "string list"

record AnalyticsCollector =
  metrics :: "Desc gomap"
  database :: "database option"
  domain :: string

definition NewAnalyticsCollector ::
  "(string \<times> string) list \<Rightarrow> database option \<Rightarrow> string \<Rightarrow> AnalyticsCollector" where
  "NewAnalyticsCollector labels db name =
     \<lparr>metrics =
        [(''unique_visitors_total'',
            NewDesc ''unique_visitors_total'' ''Total number of unique visitors'' [] labels),
         (''visits_total'', NewDesc ''visits_total'' ''Total number of visitors'' [] labels),
         (''total_page_views'', NewDesc ''page_views'' ''Total number of page views'' [] labels),
         (''current_visitors'', NewDesc ''current_visitors'' ''Current visitors'' [] labels),
         (''bounce_rate'', NewDesc ''bounce_rate'' ''Bounce rate in %'' [] labels),
         (''page_rate'', NewDesc ''page_rate'' ''Rating of page'' [''page''] labels),
         (''source_rate'', NewDesc ''source_rate'' ''Rating of source'' [''source''] labels),
         (''os_rate'', NewDesc ''os_rate'' ''Rating of OS'' [''os''] labels),
         (''browser_rate'', NewDesc ''browser_rate'' ''Rating of browser'' [''browser''] labels),
         (''device_rate'', NewDesc ''device_rate'' ''Rating of device'' [''device''] labels),
         (''entry_pages_rate'',
            NewDesc ''entry_pages_rate'' ''Rating of entry pages'' [''page''] labels),
         (''exit_pages_rate'',
            NewDesc ''exit_pages_rate'' ''Rating of exit pages'' [''page''] labels)],
      database = db,
      domain = name\<rparr>"

text \<open>
  \<open>Describe\<close> sends every descriptor of the map on the channel, in the unspecified
  order of the map iteration: the result is the multiset of what is sent.
\<close>

definition Describe :: "AnalyticsCollector \<Rightarrow> Desc multiset" where
  "Describe c = mset (map snd (metrics c))"

text \<open>
  \<open>MustNewConstMetric(c.metrics[key], ...)\<close>: a key missing from the map reads as a nil
  descriptor, and a number of label values other than the descriptor's number of
  variable labels is refused; both panic. The library's checks of the text of names
  and label values are not modelled.
\<close>

definition MustNewConstMetric ::
  "AnalyticsCollector \<Rightarrow> string \<Rightarrow> ValueType \<Rightarrow> float64 \<Rightarrow> string list \<Rightarrow> error + Metric" where
  "MustNewConstMetric c key vt v lvs =
     (case map_of (metrics c) key of
        None \<Rightarrow> Inl (NilDesc key)
      | Some d \<Rightarrow>
          if length lvs \<noteq> length (variableLabels d) then Inl (InconsistentCardinality key)
          else Inr \<lparr>desc = d, valType = vt, val = v, labelValues = lvs\<rparr>)"

text \<open>The samples of one categorical map; nothing for a nil map.\<close>

definition rate_metrics ::
  "AnalyticsCollector \<Rightarrow> string \<Rightarrow> int gomap option \<Rightarrow> (error + Metric) list" where
  "rate_metrics c key m =
     (case m of
        None \<Rightarrow> []
      | Some entries \<Rightarrow>
          map (\<lambda>(label, rate). MustNewConstMetric c key GaugeValue (float64_of_int rate) [label])
            entries)"

text \<open>The samples sent in turn, up to the first panic.\<close>

fun send_all :: "(error + Metric) list \<Rightarrow> error + Metric list" where
  "send_all [] = Inr []"
| "send_all (Inl err # ms) = Inl err"
| "send_all (Inr m # ms) =
     (case send_all ms of
        Inl err \<Rightarrow> Inl err
      | Inr rest \<Rightarrow> Inr (m # rest))"

text \<open>
  \<open>Collect\<close> (here \<open>Collect_metrics\<close>): an error of \<open>GetAnalyticsStats\<close> is logged with
  \<open>Fatal\<close>, which ends the process before anything is sent. The samples of a
  categorical map are sent in the order of the map iteration, which is unspecified;
  the list order stands for it.
\<close>

definition Collect_metrics :: "AnalyticsCollector \<Rightarrow> int \<Rightarrow> error + Metric list" where
  "Collect_metrics c now =
     (case GetAnalyticsStats (database c) (domain c) now of
        Inl err \<Rightarrow> Inl err
      | Inr stats \<Rightarrow>
          send_all
            ([MustNewConstMetric c ''unique_visitors_total'' CounterValue
                (float64_of_int (UniqueVisitors stats)) [],
              MustNewConstMetric c ''visits_total'' CounterValue
                (float64_of_int (TotalVisits stats)) [],
              MustNewConstMetric c ''total_page_views'' CounterValue
                (float64_of_int (TotalPageViews stats)) [],
              MustNewConstMetric c ''current_visitors'' CounterValue
                (float64_of_int (CurrentVisitors stats)) [],
              MustNewConstMetric c ''bounce_rate'' GaugeValue (BounceRate stats) []]
             @ rate_metrics c ''page_rate'' (PagesRate stats)
             @ rate_metrics c ''source_rate'' (SourcesRate stats)
             @ rate_metrics c ''device_rate'' (DevicesRate stats)
             @ rate_metrics c ''os_rate'' (OSsRate stats)
             @ rate_metrics c ''browser_rate'' (BrowsersRate stats)
             @ rate_metrics c ''entry_pages_rate'' (EntryPagesRate stats)
             @ rate_metrics c ''exit_pages_rate'' (ExitPagesRate stats)))"

section \<open>Vocabulary of the statements\<close>

subsection \<open>The two expressions in closed form\<close>

text \<open>
  The scheme a string starts with, the longest run \<^verbatim>\<open>[^/]+\<close> can take and the longest
  run \<^verbatim>\<open>.*\<close> can take.
\<close>

definition strip_scheme :: "string \<Rightarrow> string option" where
  "strip_scheme s =
     (if take 8 s = ''https://'' then Some (drop 8 s)
      else if take 7 s = ''http://'' then Some (drop 7 s)
      else None)"

definition host_run :: "string \<Rightarrow> string" where
  "host_run s = takeWhile (\<lambda>c. c \<noteq> CHR ''/'') s"

definition dot_star :: "string \<Rightarrow> string" where
  "dot_star s = takeWhile (\<lambda>c. c \<noteq> CHR 0x0A) s"

text \<open>
  The optional scheme is tried first; when the host class cannot take a character
  after it, the matcher backtracks and tries the host class at the start of \<open>s\<close>
  itself. After the host, \<^verbatim>\<open>(.*)\<close> always succeeds.
\<close>

definition match_here :: "string \<Rightarrow> (string \<times> string) option" where
  "match_here s =
     (case (case strip_scheme s of
              Some r \<Rightarrow> if host_run r \<noteq> [] then Some r else None
            | None \<Rightarrow> None) of
        Some r \<Rightarrow> Some (host_run r, dot_star (drop (length (host_run r)) r))
      | None \<Rightarrow>
          if host_run s \<noteq> [] then Some (host_run s, dot_star (drop (length (host_run s)) s))
          else None)"

text \<open>The only possible match of \<^verbatim>\<open>\.html$\<close> is the last five bytes.\<close>

definition remove_html :: "string \<Rightarrow> string" where
  "remove_html p =
     (if 5 \<le> length p \<and> drop (length p - 5) p = ''.html'' then take (length p - 5) p
      else p)"

subsection \<open>Pages, hosts, sessions and stores\<close>

text \<open>
  The page key and the URL host of an event, as the loop computes them (\<open>urlPath\<close> and
  \<open>fullUrlDomain\<close>); they are only used for events whose URL is accepted.
\<close>

definition page_key :: "event \<Rightarrow> string" where
  "page_key e =
     (case extractDomainAndPath (URL e) of
        Inl err \<Rightarrow> []
      | Inr (d, path) \<Rightarrow> ReplaceAllString html_rx path [])"

definition url_host :: "event \<Rightarrow> string" where
  "url_host e =
     (case extractDomainAndPath (URL e) of
        Inl err \<Rightarrow> []
      | Inr (d, path) \<Rightarrow> d)"

text \<open>All sessions of a visits map, and a store that holds the same events for every property.\<close>

definition all_visits :: "visit list gomap \<Rightarrow> visit list" where
  "all_visits vm = concat (map snd vm)"

definition fixed_store :: "event list \<Rightarrow> database" where
  "fixed_store es = (\<lambda>property. Inr es)"

subsection \<open>Errors of the normalizer\<close>

text \<open>The error the normalizer returns for a string it cannot decompose.\<close>

definition refused :: "error \<Rightarrow> string \<Rightarrow> bool" where
  "refused err s \<longleftrightarrow> err = ExtractError s \<and> isl (extractDomainAndPath s)"

subsection \<open>Sessions as the specification words them\<close>

text \<open>
  Two consecutive events of one fingerprint belong to the same session iff the gap
  between their timestamps is at most 30 minutes; otherwise a new session starts. A
  session records its first page, its last page, its number of events and the
  timestamp of its last event.
\<close>

definition same_session :: "event \<Rightarrow> event \<Rightarrow> bool" where
  "same_session e1 e2 \<longleftrightarrow> Timestamp e2 - Timestamp e1 \<le> 30 * 60 * 1000000000"

fun split_sessions :: "event list \<Rightarrow> event list list" where
  "split_sessions [] = []"
| "split_sessions [e] = [[e]]"
| "split_sessions (e1 # e2 # es) =
     (if same_session e1 e2
      then (case split_sessions (e2 # es) of
              g # gs \<Rightarrow> (e1 # g) # gs
            | [] \<Rightarrow> [[e1]])
      else [e1] # split_sessions (e2 # es))"

definition session_of :: "event list \<Rightarrow> visit" where
  "session_of g = \<lparr>EntryPage = page_key (hd g), ExitPage = page_key (last g),
     PagesVisited = int (length g), LastPageViewTimestamp = Timestamp (last g)\<rparr>"

definition sessions_for :: "string \<Rightarrow> event list \<Rightarrow> visit list option" where
  "sessions_for fp es =
     (let g = filter (\<lambda>e. HashedVisit e = fp) es in
      if g = [] then None else Some (map session_of (split_sessions g)))"

subsection \<open>The source label as the specification words it\<close>

text \<open>The last two dot-separated labels of a host, joined by a dot (the host itself when it has one label).\<close>

definition last_two_labels :: "string \<Rightarrow> string" where
  "last_two_labels host =
     (let labels = Split host (CHR ''.'') in
      if length labels < 2 then host
      else labels ! (length labels - 2) @ ''.'' @ labels ! (length labels - 1))"

subsection \<open>Sample inputs\<close>

definition ev :: "string \<Rightarrow> string \<Rightarrow> string \<Rightarrow> string \<Rightarrow> int \<Rightarrow> event" where
  "ev ty url ref fp ts =
     \<lparr>ID = [], Type = ty, URL = url, Domain_ev = ''example.com'', Referrer = ref, Browser = [],
      OS = [], Device = None, HashedVisit = fp, Meta = [], Props = [], Timestamp = ts\<rparr>"

definition one_click :: "event list" where
  "one_click = [ev ''click'' ''https://example.com/'' [] ''F1'' 0]"

definition two_events :: "event list" where
  "two_events =
     [ev ''click'' ''https://example.com/'' [] ''F1'' 0,
      ev ''pageview'' ''https://example.com/foo.html'' [] ''F2'' 1]"

definition three_views :: "event list" where
  "three_views =
     [ev ''pageview'' ''https://example.com/'' [] ''F1'' 0,
      ev ''pageview'' ''https://example.com/foo'' [] ''F1'' (5 * Minute),
      ev ''pageview'' ''https://example.com/bar'' [] ''F1'' (40 * Minute)]"

definition first_views :: "event list" where
  "first_views =
     [ev ''pageview'' ''https://example.com/'' [] ''F1'' 0,
      ev ''pageview'' ''https://example.com/foo'' [] ''F1'' (5 * Minute)]"

definition third_view :: event where
  "third_view = ev ''pageview'' ''https://example.com/bar'' [] ''F1'' (40 * Minute)"

definition two_devices :: "event list" where
  "two_devices =
     [(ev ''pageview'' ''https://example.com/page.html'' [] ''F1'' 0)
        \<lparr>OS := ''Linux'', Browser := ''Firefox'', Device := Some (Device_Desktop True)\<rparr>,
      (ev ''scroll'' ''example.com'' [] ''F2'' 7)\<lparr>Device := Some Device_Unset\<rparr>]"

definition from_hn :: event where
  "from_hn =
     ev ''pageview'' ''https://example.com/page.html'' ''https://news.ycombinator.com/item''
       ''F1'' 0"

definition internal_nav :: event where
  "internal_nav =
     ev ''pageview'' ''https://example.com/b'' ''https://example.com/a'' ''F1'' 0"

definition bad_referrer :: "event list" where
  "bad_referrer =
     [ev ''pageview'' ''https://example.com/'' [] ''F1'' 0,
      ev ''pageview'' ''https://example.com/foo'' ''//'' ''F2'' 1]"

subsection \<open>Sample loop states\<close>

definition first_session :: visit where
  "first_session = \<lparr>EntryPage = ''/'', ExitPage = ''/foo'', PagesVisited = 2,
     LastPageViewTimestamp = 300000000000\<rparr>"

definition second_session :: visit where
  "second_session = \<lparr>EntryPage = ''/bar'', ExitPage = ''/bar'', PagesVisited = 1,
     LastPageViewTimestamp = 2400000000000\<rparr>"

definition first_views_counters :: counters where
  "first_views_counters =
     \<lparr>pageViewsCount = 2, pages = [(''/'', 1), (''/foo'', 1)],
      sources = [(''Direct/None'', 2)], devices = [(''Unknown'', 2)],
      oss = [(''Unknown'', 2)], browsers = [(''Unknown'', 2)],
      visitsMap = [(''F1'', [first_session])]\<rparr>"

definition third_view_counters :: counters where
  "third_view_counters =
     \<lparr>pageViewsCount = 3, pages = [(''/'', 1), (''/foo'', 1), (''/bar'', 1)],
      sources = [(''Direct/None'', 3)], devices = [(''Unknown'', 3)],
      oss = [(''Unknown'', 3)], browsers = [(''Unknown'', 3)],
      visitsMap = [(''F1'', [first_session, second_session])]\<rparr>"

definition from_hn_counters :: counters where
  "from_hn_counters =
     \<lparr>pageViewsCount = 1, pages = [(''/page'', 1)],
      sources = [(''ycombinator.com'', 1)], devices = [(''Unknown'', 1)],
      oss = [(''Unknown'', 1)], browsers = [(''Unknown'', 1)],
      visitsMap = [(''F1'', [new_visit ''/page'' 0])]\<rparr>"

definition internal_nav_counters :: counters where
  "internal_nav_counters =
     \<lparr>pageViewsCount = 1, pages = [(''/b'', 1)],
      sources = [], devices = [(''Unknown'', 1)],
      oss = [(''Unknown'', 1)], browsers = [(''Unknown'', 1)],
      visitsMap = [(''F1'', [new_visit ''/b'' 0])]\<rparr>"

subsection \<open>Sample snapshots\<close>

definition no_events_stats :: AnalyticsStats where
  "no_events_stats =
     \<lparr>UniqueVisitors = 0, TotalVisits = 0, TotalPageViews = 0, CurrentVisitors = 0,
      BounceRate = NaN,
      PagesRate = Some [], SourcesRate = Some [], DevicesRate = Some [], OSsRate = Some [],
      BrowsersRate = Some [], EntryPagesRate = Some [], ExitPagesRate = Some []\<rparr>"

definition one_click_stats :: AnalyticsStats where
  "one_click_stats =
     \<lparr>UniqueVisitors = 1, TotalVisits = 1, TotalPageViews = 0, CurrentVisitors = 1,
      BounceRate = PosInf,
      PagesRate = Some [(''/'', 1)],
      SourcesRate = Some [(''Direct/None'', 1)],
      DevicesRate = Some [(''Unknown'', 1)],
      OSsRate = Some [(''Unknown'', 1)],
      BrowsersRate = Some [(''Unknown'', 1)],
      EntryPagesRate = Some [(''/'', 1)],
      ExitPagesRate = Some [(''/'', 1)]\<rparr>"

definition two_events_stats :: AnalyticsStats where
  "two_events_stats =
     \<lparr>UniqueVisitors = 2, TotalVisits = 2, TotalPageViews = 1, CurrentVisitors = 2,
      BounceRate = Finite 2,
      PagesRate = Some [(''/'', 1), (''/foo'', 1)],
      SourcesRate = Some [(''Direct/None'', 2)],
      DevicesRate = Some [(''Unknown'', 2)],
      OSsRate = Some [(''Unknown'', 2)],
      BrowsersRate = Some [(''Unknown'', 2)],
      EntryPagesRate = Some [(''/'', 1), (''/foo'', 1)],
      ExitPagesRate = Some [(''/'', 1), (''/foo'', 1)]\<rparr>"

definition three_views_stats :: AnalyticsStats where
  "three_views_stats =
     \<lparr>UniqueVisitors = 1, TotalVisits = 2, TotalPageViews = 3, CurrentVisitors = 0,
      BounceRate = Finite (1 / 3),
      PagesRate = Some [(''/'', 1), (''/foo'', 1), (''/bar'', 1)],
      SourcesRate = Some [(''Direct/None'', 3)],
      DevicesRate = Some [(''Unknown'', 3)],
      OSsRate = Some [(''Unknown'', 3)],
      BrowsersRate = Some [(''Unknown'', 3)],
      EntryPagesRate = Some [(''/'', 1), (''/bar'', 1)],
      ExitPagesRate = Some [(''/foo'', 1), (''/bar'', 1)]\<rparr>"

definition two_devices_stats :: AnalyticsStats where
  "two_devices_stats =
     \<lparr>UniqueVisitors = 2, TotalVisits = 2, TotalPageViews = 1, CurrentVisitors = 2,
      BounceRate = Finite 2,
      PagesRate = Some [(''/page'', 1), (''/'', 1)],
      SourcesRate = Some [(''Direct/None'', 2)],
      DevicesRate = Some [(''Desktop'', 1), (''Unknown'', 1)],
      OSsRate = Some [(''Linux'', 1), (''Unknown'', 1)],
      BrowsersRate = Some [(''Firefox'', 1), (''Unknown'', 1)],
      EntryPagesRate = Some [(''/page'', 1), (''/'', 1)],
      ExitPagesRate = Some [(''/page'', 1), (''/'', 1)]\<rparr>"

subsection \<open>Descriptors and sample scrapes\<close>

text \<open>Descriptors without and with one variable label.\<close>

definition unlabeled :: "Desc \<Rightarrow> bool" where
  "unlabeled d \<longleftrightarrow> variableLabels d = []"

definition one_label :: "Desc \<Rightarrow> bool" where
  "one_label d \<longleftrightarrow> length (variableLabels d) = 1"

text \<open>The twelve descriptors of the constructor, in the order of the map literal.\<close>

definition descriptors :: "(string \<times> string) list \<Rightarrow> Desc list" where
  "descriptors labels =
     [NewDesc ''unique_visitors_total'' ''Total number of unique visitors'' [] labels,
      NewDesc ''visits_total'' ''Total number of visitors'' [] labels,
      NewDesc ''page_views'' ''Total number of page views'' [] labels,
      NewDesc ''current_visitors'' ''Current visitors'' [] labels,
      NewDesc ''bounce_rate'' ''Bounce rate in %'' [] labels,
      NewDesc ''page_rate'' ''Rating of page'' [''page''] labels,
      NewDesc ''source_rate'' ''Rating of source'' [''source''] labels,
      NewDesc ''os_rate'' ''Rating of OS'' [''os''] labels,
      NewDesc ''browser_rate'' ''Rating of browser'' [''browser''] labels,
      NewDesc ''device_rate'' ''Rating of device'' [''device''] labels,
      NewDesc ''entry_pages_rate'' ''Rating of entry pages'' [''page''] labels,
      NewDesc ''exit_pages_rate'' ''Rating of exit pages'' [''page''] labels]"

text \<open>The five samples without label values, for given constant labels and a snapshot.\<close>

definition simple_samples :: "(string \<times> string) list \<Rightarrow> AnalyticsStats \<Rightarrow> Metric list" where
  "simple_samples labels st =
     [\<lparr>desc = NewDesc ''unique_visitors_total'' ''Total number of unique visitors'' [] labels,
       valType = CounterValue, val = float64_of_int (UniqueVisitors st), labelValues = []\<rparr>,
      \<lparr>desc = NewDesc ''visits_total'' ''Total number of visitors'' [] labels,
       valType = CounterValue, val = float64_of_int (TotalVisits st), labelValues = []\<rparr>,
      \<lparr>desc = NewDesc ''page_views'' ''Total number of page views'' [] labels,
       valType = CounterValue, val = float64_of_int (TotalPageViews st), labelValues = []\<rparr>,
      \<lparr>desc = NewDesc ''current_visitors'' ''Current visitors'' [] labels,
       valType = CounterValue, val = float64_of_int (CurrentVisitors st), labelValues = []\<rparr>,
      \<lparr>desc = NewDesc ''bounce_rate'' ''Bounce rate in %'' [] labels,
       valType = GaugeValue, val = BounceRate st, labelValues = []\<rparr>]"

definition example_collector :: "event list \<Rightarrow> AnalyticsCollector" where
  "example_collector es =
     NewAnalyticsCollector [(''domain'', ''example.com'')] (Some (fixed_store es)) ''example.com''"

section \<open>The regular expressions of the normalizer\<close>

declare rests.simps [simp del]

lemma rests_Lit_iff: "r \<in> set (rests (Lit l) s) \<longleftrightarrow> s = l @ r"
proof
  assume "r \<in> set (rests (Lit l) s)"
  then have "take (length l) s = l" and "r = drop (length l) s"
    by (auto simp: rests.simps split: if_splits)
  then show "s = l @ r" by (metis append_take_drop_id)
next
  assume "s = l @ r"
  then show "r \<in> set (rests (Lit l) s)" by (simp add: rests.simps)
qed

lemma rests_Seq_iff:
  "r \<in> set (rests (Seq a b) s) \<longleftrightarrow> (\<exists>r1 \<in> set (rests a s). r \<in> set (rests b r1))"
  by (auto simp: rests.simps(5))

lemma rests_Opt_iff: "r \<in> set (rests (Opt a) s) \<longleftrightarrow> r \<in> set (rests a s) \<or> r = s"
  by (auto simp: rests.simps(6))

lemma rests_class:
  "rests (NotChr c) s = (case s of [] \<Rightarrow> [] | x # t \<Rightarrow> if x \<noteq> c then [t] else [])"
  "rests AnyNotNL s = (case s of [] \<Rightarrow> [] | x # t \<Rightarrow> if x \<noteq> CHR 0x0A then [t] else [])"
  by (simp_all add: rests.simps)

text \<open>A starred class takes the longest run first.\<close>

lemma rests_star_class:
  assumes "\<And>s. rests a s = (case s of [] \<Rightarrow> [] | x # t \<Rightarrow> if P x then [t] else [])"
  shows "rests (Star a) s \<noteq> [] \<and> hd (rests (Star a) s) = dropWhile P s"
proof (induction s)
  case Nil
  have "rests (Star a) [] = [[]]"
    by (subst rests.simps) (simp add: assms)
  then show ?case by simp
next
  case (Cons x t)
  have "rests (Star a) (x # t) = (if P x then rests (Star a) t else []) @ [x # t]"
    by (subst rests.simps) (simp add: assms)
  then show ?case using Cons by simp
qed

lemma rests_path_rx:
  "rests path_rx s \<noteq> []" "hd (rests path_rx s) = dropWhile (\<lambda>c. c \<noteq> CHR 0x0A) s"
  using rests_star_class [of AnyNotNL "\<lambda>c. c \<noteq> CHR 0x0A" s, OF rests_class(2)]
  by (simp_all add: path_rx_def)

lemma rests_host_rx_Cons:
  "rests host_rx (x # t) = (if x \<noteq> CHR ''/'' then rests (Star (NotChr (CHR ''/''))) t else [])"
  by (simp add: host_rx_def rests.simps(5) rests_class)

lemma rests_host_rx_Nil: "rests host_rx [] = []"
  by (simp add: host_rx_def rests.simps(5) rests_class)

lemma rests_host_rx:
  "rests host_rx s = [] \<longleftrightarrow> host_run s = []"
  "host_run s \<noteq> [] \<Longrightarrow> hd (rests host_rx s) = drop (length (host_run s)) s"
proof -
  note st = rests_star_class [of "NotChr (CHR ''/'')" "\<lambda>c. c \<noteq> CHR ''/''", OF rests_class(1)]
  show "rests host_rx s = [] \<longleftrightarrow> host_run s = []"
  proof (cases s)
    case Nil
    then show ?thesis by (simp add: rests_host_rx_Nil host_run_def)
  next
    case (Cons x t)
    then show ?thesis using st [of t] by (simp add: rests_host_rx_Cons host_run_def)
  qed
  show "hd (rests host_rx s) = drop (length (host_run s)) s" if "host_run s \<noteq> []"
  proof (cases s)
    case Nil
    then show ?thesis using that by (simp add: host_run_def)
  next
    case (Cons x t)
    then have x: "x \<noteq> CHR ''/''" using that by (auto simp: host_run_def split: if_splits)
    have "hd (rests host_rx s) = dropWhile (\<lambda>c. c \<noteq> CHR ''/'') t"
      using st [of t] x by (simp add: rests_host_rx_Cons Cons)
    also have "\<dots> = dropWhile (\<lambda>c. c \<noteq> CHR ''/'') s" using x by (simp add: Cons)
    also have "\<dots> = drop (length (host_run s)) s"
      by (simp add: host_run_def dropWhile_eq_drop)
    finally show ?thesis .
  qed
qed

lemma rests_scheme_body:
  assumes "r \<in> set (rests (Seq (Lit ''http'') (Seq (Opt (Lit ''s'')) (Lit ''://''))) s)"
  shows "s = ''https://'' @ r \<or> s = ''http://'' @ r"
proof -
  from assms obtain r1 where "r1 \<in> set (rests (Lit ''http'') s)"
    and a: "r \<in> set (rests (Seq (Opt (Lit ''s'')) (Lit ''://'')) r1)"
    by (auto simp: rests_Seq_iff)
  then have 1: "s = ''http'' @ r1" by (simp only: rests_Lit_iff)
  from a obtain r2 where b: "r2 \<in> set (rests (Opt (Lit ''s'')) r1)"
    and "r \<in> set (rests (Lit ''://'') r2)"
    by (auto simp: rests_Seq_iff)
  then have 3: "r2 = ''://'' @ r" by (simp only: rests_Lit_iff)
  from b have 2: "r1 = ''s'' @ r2 \<or> r2 = r1"
    by (simp only: rests_Opt_iff rests_Lit_iff)
  from 1 2 3 show ?thesis by auto
qed

lemma rests_scheme_https:
  "rests (Seq (Lit ''http'') (Seq (Opt (Lit ''s'')) (Lit ''://''))) (''https://'' @ r) = [r]"
  by (simp add: rests.simps)

lemma rests_scheme_http:
  "rests (Seq (Lit ''http'') (Seq (Opt (Lit ''s'')) (Lit ''://''))) (''http://'' @ r) = [r]"
  by (simp add: rests.simps)

lemma strip_scheme_cases:
  "strip_scheme (''https://'' @ r) = Some r" "strip_scheme (''http://'' @ r) = Some r"
  "strip_scheme s = Some r \<Longrightarrow> s = ''https://'' @ r \<or> s = ''http://'' @ r"
proof -
  show "strip_scheme (''https://'' @ r) = Some r" "strip_scheme (''http://'' @ r) = Some r"
    by (simp_all add: strip_scheme_def)
  assume "strip_scheme s = Some r"
  then consider "take 8 s = ''https://''" "r = drop 8 s" | "take 7 s = ''http://''" "r = drop 7 s"
    by (auto simp: strip_scheme_def split: if_splits)
  then show "s = ''https://'' @ r \<or> s = ''http://'' @ r"
    by cases (metis append_take_drop_id)+
qed

lemma rests_scheme_rx:
  "rests scheme_rx s = (case strip_scheme s of Some r \<Rightarrow> [r, s] | None \<Rightarrow> [s])"
proof (cases "strip_scheme s")
  case None
  have "rests (Seq (Lit ''http'') (Seq (Opt (Lit ''s'')) (Lit ''://''))) s = []"
  proof (rule ccontr)
    assume "rests (Seq (Lit ''http'') (Seq (Opt (Lit ''s'')) (Lit ''://''))) s \<noteq> []"
    then obtain r
      where "r \<in> set (rests (Seq (Lit ''http'') (Seq (Opt (Lit ''s'')) (Lit ''://''))) s)"
      by (meson last_in_set)
    from rests_scheme_body [OF this] show False
      using None strip_scheme_cases(1,2) by auto
  qed
  then show ?thesis by (simp add: scheme_rx_def rests.simps(6) None)
next
  case (Some r)
  from strip_scheme_cases(3) [OF this]
  have "rests (Seq (Lit ''http'') (Seq (Opt (Lit ''s'')) (Lit ''://''))) s = [r]"
    using rests_scheme_https rests_scheme_http by auto
  then show ?thesis by (simp add: scheme_rx_def rests.simps(6) Some)
qed

lemma submatch_inner:
  "[(take (length r1 - length r2) r1, take (length r2 - length r3) r2).
      r2 \<leftarrow> rests host_rx r1, r3 \<leftarrow> rests path_rx r2] = [] \<longleftrightarrow> host_run r1 = []"
  "host_run r1 \<noteq> [] \<Longrightarrow>
   hd [(take (length r1 - length r2) r1, take (length r2 - length r3) r2).
      r2 \<leftarrow> rests host_rx r1, r3 \<leftarrow> rests path_rx r2]
     = (host_run r1, dot_star (drop (length (host_run r1)) r1))"
proof -
  let ?G = "\<lambda>r2. map (\<lambda>r3. (take (length r1 - length r2) r1, take (length r2 - length r3) r2))
      (rests path_rx r2)"
  have g: "?G r2 \<noteq> []" for r2 by (simp add: rests_path_rx)
  show "concat (map ?G (rests host_rx r1)) = [] \<longleftrightarrow> host_run r1 = []"
  proof (cases "rests host_rx r1")
    case Nil
    then show ?thesis using rests_host_rx(1) [of r1] by simp
  next
    case (Cons a list)
    then show ?thesis using rests_host_rx(1) [of r1] g [of a] by simp
  qed
  show "hd (concat (map ?G (rests host_rx r1)))
     = (host_run r1, dot_star (drop (length (host_run r1)) r1))" if ne: "host_run r1 \<noteq> []"
  proof -
    define r2 where "r2 = drop (length (host_run r1)) r1"
    from ne obtain rs where rs: "rests host_rx r1 = r2 # rs"
      using rests_host_rx [of r1] by (cases "rests host_rx r1") (auto simp: r2_def)
    have l: "length (host_run r1) \<le> length r1"
      by (simp add: host_run_def length_takeWhile_le)
    have a: "take (length r1 - length r2) r1 = host_run r1"
    proof -
      have "length r1 - length r2 = length (host_run r1)"
        using l by (simp add: r2_def)
      then show ?thesis
        by (simp add: host_run_def takeWhile_eq_take [symmetric])
    qed
    define r3 where "r3 = dropWhile (\<lambda>c. c \<noteq> CHR 0x0A) r2"
    have b: "take (length r2 - length r3) r2 = dot_star r2"
    proof -
      have "length r3 = length r2 - length (dot_star r2)"
        by (simp add: r3_def dot_star_def dropWhile_eq_drop)
      moreover have "length (dot_star r2) \<le> length r2"
        by (simp add: dot_star_def length_takeWhile_le)
      ultimately have "length r2 - length r3 = length (dot_star r2)" by simp
      then show ?thesis
        by (simp add: dot_star_def takeWhile_eq_take [symmetric])
    qed
    have "hd (concat (map ?G (rests host_rx r1))) = hd (?G r2)"
      using g [of r2] by (simp add: rs)
    also have "\<dots> = (take (length r1 - length r2) r1, take (length r2 - length r3) r2)"
      using rests_path_rx [of r2] by (simp add: hd_map r3_def)
    also have "\<dots> = (host_run r1, dot_star r2)"
      by (simp only: a b)
    finally show ?thesis unfolding r2_def .
  qed
qed

text \<open>
  The first match of the expression at the start of a string, computed without the
  list of all matches.
\<close>

lemma submatch_at_closed [simp, code]: "submatch_at s = match_here s"
proof -
  define F where "F = (\<lambda>r1. [(take (length r1 - length r2) r1, take (length r2 - length r3) r2).
      r2 \<leftarrow> rests host_rx r1, r3 \<leftarrow> rests path_rx r2])"
  have sm: "submatch_at s
      = (case concat (map F (rests scheme_rx s)) of [] \<Rightarrow> None | m # _ \<Rightarrow> Some m)"
    by (simp add: submatch_at_def F_def)
  have e: "F r = []" if "host_run r = []" for r
    using that submatch_inner(1) [of r] unfolding F_def by blast
  have c: "\<exists>ms. F r = (host_run r, dot_star (drop (length (host_run r)) r)) # ms"
    if "host_run r \<noteq> []" for r
  proof -
    have "F r \<noteq> []" using that submatch_inner(1) [of r] unfolding F_def by blast
    moreover have "hd (F r) = (host_run r, dot_star (drop (length (host_run r)) r))"
      using submatch_inner(2) [OF that] unfolding F_def .
    ultimately show ?thesis by (cases "F r") auto
  qed
  show ?thesis
  proof (cases "strip_scheme s")
    case None
    show ?thesis
    proof (cases "host_run s = []")
      case True
      then show ?thesis
        by (simp add: sm rests_scheme_rx match_here_def None e)
    next
      case False
      from c [OF False] obtain ms
        where "F s = (host_run s, dot_star (drop (length (host_run s)) s)) # ms" ..
      then show ?thesis
        using False by (simp add: sm rests_scheme_rx match_here_def None)
    qed
  next
    case (Some r)
    show ?thesis
    proof (cases "host_run r = []")
      case True
      show ?thesis
      proof (cases "host_run s = []")
        case Nil: True
        then show ?thesis
          using True by (simp add: sm rests_scheme_rx match_here_def Some e)
      next
        case False
        from c [OF False] obtain ms
          where "F s = (host_run s, dot_star (drop (length (host_run s)) s)) # ms" ..
        then show ?thesis
          using True False by (simp add: sm rests_scheme_rx match_here_def Some e)
      qed
    next
      case False
      from c [OF False] obtain ms
        where "F r = (host_run r, dot_star (drop (length (host_run r)) r)) # ms" ..
      then show ?thesis
        using False by (simp add: sm rests_scheme_rx match_here_def Some)
    qed
  qed
qed

lemma rests_html_rx: "rests html_rx s = (if s = ''.html'' then [[]] else [])"
proof (cases "s = ''.html''")
  case True
  then show ?thesis by (simp add: html_rx_def rests.simps)
next
  case False
  have "rests html_rx s = []"
  proof (rule ccontr)
    assume "rests html_rx s \<noteq> []"
    then obtain r where "r \<in> set (rests html_rx s)" by (meson last_in_set)
    then obtain r1 where "r1 \<in> set (rests (Lit ''.html'') s)" and "r \<in> set (rests EndText r1)"
      by (auto simp: html_rx_def rests_Seq_iff)
    then have "s = ''.html'' @ r1" and "r1 = []"
      by (auto simp: rests_Lit_iff rests.simps(4) split: if_splits)
    then show False using False by simp
  qed
  then show ?thesis using False by simp
qed

lemma remove_html_Cons:
  "c # t \<noteq> ''.html'' \<Longrightarrow> remove_html (c # t) = c # remove_html t"
proof -
  assume ne: "c # t \<noteq> ''.html''"
  consider "length t < 4" | "length t = 4" | "5 \<le> length t" by linarith
  then show ?thesis
  proof cases
    case 1
    then show ?thesis by (simp add: remove_html_def)
  next
    case 2
    then show ?thesis using ne by (simp add: remove_html_def)
  next
    case 3
    then have "length (c # t) - 5 = Suc (length t - 5)" by simp
    then show ?thesis using 3 by (simp add: remove_html_def)
  qed
qed

text \<open>Replacing the matches of \<^verbatim>\<open>\.html$\<close> by the empty string removes one trailing \<open>.html\<close>.\<close>

lemma ReplaceAllString_html [simp]: "ReplaceAllString html_rx p [] = remove_html p"
proof (induction p)
  case Nil
  then show ?case by (simp add: rests_html_rx remove_html_def)
next
  case (Cons c t)
  show ?case
  proof (cases "c # t = ''.html''")
    case True
    then show ?thesis by (simp add: rests_html_rx remove_html_def)
  next
    case False
    then show ?thesis using Cons by (simp add: rests_html_rx remove_html_Cons)
  qed
qed

section \<open>Counters and maps\<close>

lemma sum_values_incr: "sum_values (incr m k) = sum_values m + 1"
  unfolding sum_values_def incr_def
  by (induction m) (auto split: option.splits)

lemma at_key_incr: "at_key (incr m k) k' = at_key m k' + (if k' = k then 1 else 0)"
  unfolding at_key_def incr_def
  by (simp add: update_conv')

lemma sum_values_fold_incr:
  "sum_values (fold (\<lambda>x m. incr m (key x)) xs m) = sum_values m + int (length xs)"
  by (induction xs arbitrary: m) (simp_all add: sum_values_incr)

lemma at_key_fold_incr:
  "at_key (fold (\<lambda>x m. incr m (key x)) xs m) k =
     at_key m k + int (length (filter (\<lambda>x. key x = k) xs))"
  by (induction xs arbitrary: m) (simp_all add: at_key_incr)

lemma distinct_fold_incr:
  "distinct (map fst m) \<Longrightarrow> distinct (map fst (fold (\<lambda>x m. incr m (key x)) xs m))"
  by (induction xs arbitrary: m) (simp_all add: incr_def distinct_update)

lemma fold_count_if:
  "fold (\<lambda>x (n::int). n + (if P x then 1 else 0)) xs n = n + int (length (filter P xs))"
  by (induction xs arbitrary: n) simp_all

lemma length_filter_sort_key:
  "length (filter P (sort_key f xs)) = length (filter P xs)"
proof -
  have "mset (filter P (sort_key f xs)) = mset (filter P xs)"
    by (simp only: mset_filter mset_sort)
  then show ?thesis by (metis size_mset)
qed

lemma Sub_gt_VisitDuration: "Sub t u > VisitDuration \<longleftrightarrow> t - u > VisitDuration"
  unfolding Sub_def VisitDuration_def Minute_def minDuration_def maxDuration_def Let_def
  by auto

section \<open>The loop over the events\<close>

lemma count_event_Inr:
  assumes "count_event a e = Inr a'"
  shows "pageViewsCount a' = pageViewsCount a + (if Type e = ''pageview'' then 1 else 0)"
    and "pages a' = incr (pages a) (page_key e)"
    and "devices a' = incr (devices a) (device_bucket (Device e))"
    and "oss a' = incr (oss a) (os_bucket (OS e))"
    and "browsers a' = incr (browsers a) (browser_bucket (Browser e))"
    and "count_visit (visitsMap a) e (page_key e) = Inr (visitsMap a')"
    and "count_source (sources a) (url_host e) (Referrer e) = Inr (sources a')"
  using assms
  unfolding count_event_def page_key_def url_host_def Let_def
  by (auto split: sum.splits prod.splits if_splits)

lemma count_events_Cons_Inr:
  "count_events a (e # es) = Inr a' \<Longrightarrow>
     \<exists>b. count_event a e = Inr b \<and> count_events b es = Inr a'"
  by (auto split: sum.splits)

lemma count_events_append:
  "count_events a (es @ [e]) =
     (case count_events a es of Inl err \<Rightarrow> Inl err | Inr b \<Rightarrow> count_event b e)"
  by (induction es arbitrary: a) (auto split: sum.splits)

lemma count_events_fold:
  assumes "count_events a es = Inr a'"
    and "\<And>b e b'. count_event b e = Inr b' \<Longrightarrow> f b' = g e (f b)"
  shows "f a' = fold g es (f a)"
  using assms(1)
proof (induction es arbitrary: a)
  case Nil
  then show ?case by simp
next
  case (Cons e es)
  from count_events_Cons_Inr [OF Cons.prems] obtain b
    where b: "count_event a e = Inr b" and r: "count_events b es = Inr a'" by blast
  show ?case using Cons.IH [OF r] assms(2) [OF b] by simp
qed

lemma count_events_pages:
  "count_events a es = Inr a' \<Longrightarrow> pages a' = fold (\<lambda>e m. incr m (page_key e)) es (pages a)"
  by (rule count_events_fold) (simp_all add: count_event_Inr)

lemma count_events_devices:
  "count_events a es = Inr a' \<Longrightarrow>
     devices a' = fold (\<lambda>e m. incr m (device_bucket (Device e))) es (devices a)"
  by (rule count_events_fold) (simp_all add: count_event_Inr)

lemma count_events_oss:
  "count_events a es = Inr a' \<Longrightarrow> oss a' = fold (\<lambda>e m. incr m (os_bucket (OS e))) es (oss a)"
  by (rule count_events_fold) (simp_all add: count_event_Inr)

lemma count_events_browsers:
  "count_events a es = Inr a' \<Longrightarrow>
     browsers a' = fold (\<lambda>e m. incr m (browser_bucket (Browser e))) es (browsers a)"
  by (rule count_events_fold) (simp_all add: count_event_Inr)

lemma count_events_pageViewsCount:
  assumes "count_events a es = Inr a'"
  shows "pageViewsCount a' =
     pageViewsCount a + int (length (filter (\<lambda>e. Type e = ''pageview'') es))"
proof -
  have "pageViewsCount a' =
      fold (\<lambda>e n. n + (if Type e = ''pageview'' then 1 else 0)) es (pageViewsCount a)"
    using assms by (rule count_events_fold) (simp add: count_event_Inr)
  then show ?thesis by (simp only: fold_count_if)
qed

lemma GetAnalyticsStats_Inr:
  assumes "GetAnalyticsStats db site now = Inr st"
  obtains d es a where "db = Some d" and "d site = Inr es"
    and "count_events no_counters (sort_key Timestamp es) = Inr a"
    and "st = make_stats now a"
  using assms unfolding GetAnalyticsStats_def Let_def
  by (auto split: option.splits sum.splits)

lemma empty_map_values: "at_key [] k = 0" "sum_values [] = 0"
  by (simp_all add: at_key_def sum_values_def)

lemma fixed_store_lists: "fixed_store es site = Inr es"
  by (simp add: fixed_store_def)

lemma two_devices_run:
  "GetAnalyticsStats (Some (fixed_store two_devices)) ''example.com'' 0 = Inr two_devices_stats"
  by code_simp

section \<open>Every stored event is counted once in the per-event maps\<close>

text \<open>
  Claim C10. Whenever \<open>GetAnalyticsStats\<close> returns a snapshot for the events \<open>es\<close> the
  store lists, the page, device, OS and browser maps are present, have one entry per
  key, and hold, at every key, the number of stored events with that page key or
  bucket, whatever the \<open>Type\<close> of the events: each event adds one to each of the four maps, so the values of each
  map sum to the number of stored events, while the page-view count is the number of
  events of \<open>Type\<close> \<open>pageview\<close>. A nil device, an unset device oneof, an empty OS and an
  empty browser fall into the \<open>Unknown\<close> buckets.
\<close>

theorem stored_events_counted_once:
  assumes "GetAnalyticsStats (Some db) site now = Inr st" and "db site = Inr es"
  shows "\<exists>pg dv os br.
      PagesRate st = Some pg \<and> DevicesRate st = Some dv \<and> OSsRate st = Some os
      \<and> BrowsersRate st = Some br
      \<and> distinct (map fst pg) \<and> distinct (map fst dv) \<and> distinct (map fst os)
      \<and> distinct (map fst br)
      \<and> (\<forall>k. at_key pg k = int (length (filter (\<lambda>e. page_key e = k) es)))
      \<and> (\<forall>k. at_key dv k = int (length (filter (\<lambda>e. device_bucket (Device e) = k) es)))
      \<and> (\<forall>k. at_key os k = int (length (filter (\<lambda>e. os_bucket (OS e) = k) es)))
      \<and> (\<forall>k. at_key br k = int (length (filter (\<lambda>e. browser_bucket (Browser e) = k) es)))
      \<and> sum_values pg = int (length es) \<and> sum_values dv = int (length es)
      \<and> sum_values os = int (length es) \<and> sum_values br = int (length es)
      \<and> TotalPageViews st = int (length (filter (\<lambda>e. Type e = ''pageview'') es))
      \<and> device_bucket None = ''Unknown'' \<and> device_bucket (Some Device_Unset) = ''Unknown''
      \<and> os_bucket [] = ''Unknown'' \<and> browser_bucket [] = ''Unknown''"
proof -
  from assms obtain a where a: "count_events no_counters (sort_key Timestamp es) = Inr a"
    and st: "st = make_stats now a"
    by (auto elim!: GetAnalyticsStats_Inr)
  note e = empty_map_values
  have "\<forall>k. at_key (pages a) k = int (length (filter (\<lambda>e. page_key e = k) es))"
    by (simp add: count_events_pages [OF a] at_key_fold_incr length_filter_sort_key
        no_counters_def e)
  moreover have "\<forall>k. at_key (devices a) k =
      int (length (filter (\<lambda>e. device_bucket (Device e) = k) es))"
    by (simp add: count_events_devices [OF a] at_key_fold_incr length_filter_sort_key
        no_counters_def e)
  moreover have "\<forall>k. at_key (oss a) k = int (length (filter (\<lambda>e. os_bucket (OS e) = k) es))"
    by (simp add: count_events_oss [OF a] at_key_fold_incr length_filter_sort_key
        no_counters_def e)
  moreover have "\<forall>k. at_key (browsers a) k =
      int (length (filter (\<lambda>e. browser_bucket (Browser e) = k) es))"
    by (simp add: count_events_browsers [OF a] at_key_fold_incr length_filter_sort_key
        no_counters_def e)
  moreover have "sum_values (pages a) = int (length es)"
    "sum_values (devices a) = int (length es)"
    "sum_values (oss a) = int (length es)" "sum_values (browsers a) = int (length es)"
    by (simp_all add: count_events_pages [OF a] count_events_devices [OF a]
        count_events_oss [OF a] count_events_browsers [OF a] sum_values_fold_incr
        no_counters_def e)
  moreover have "pageViewsCount a = int (length (filter (\<lambda>e. Type e = ''pageview'') es))"
    by (simp add: count_events_pageViewsCount [OF a] length_filter_sort_key no_counters_def)
  moreover have "distinct (map fst (pages a))" "distinct (map fst (devices a))"
    "distinct (map fst (oss a))" "distinct (map fst (browsers a))"
    by (simp_all add: count_events_pages [OF a] count_events_devices [OF a]
        count_events_oss [OF a] count_events_browsers [OF a] distinct_fold_incr no_counters_def)
  moreover have "device_bucket None = ''Unknown''"
    "device_bucket (Some Device_Unset) = ''Unknown''"
    "os_bucket [] = ''Unknown''" "browser_bucket [] = ''Unknown''"
    by (simp_all add: device_bucket_def os_bucket_def browser_bucket_def)
  ultimately show ?thesis
    by (simp add: st make_stats_def Let_def)
qed

text \<open>
  At the two sample events (a desktop page view and a \<open>scroll\<close> event with an unset
  device) both land in the device map, which sums to 2, while one page view is counted.
\<close>

theorem stored_events_counted_once_witness:
  "GetAnalyticsStats (Some (fixed_store two_devices)) ''example.com'' 0 = Inr two_devices_stats
   \<and> fixed_store two_devices ''example.com'' = Inr two_devices
   \<and> DevicesRate two_devices_stats = Some [(''Desktop'', 1), (''Unknown'', 1)]
   \<and> sum_values [(''Desktop'', 1), (''Unknown'', 1)] = int (length two_devices)
   \<and> at_key [(''Desktop'', 1), (''Unknown'', 1)] ''Unknown''
       = int (length (filter (\<lambda>e. device_bucket (Device e) = ''Unknown'') two_devices))
   \<and> TotalPageViews two_devices_stats = 1"
proof -
  have s: "fixed_store two_devices ''example.com'' = Inr two_devices"
    by (rule fixed_store_lists)
  from stored_events_counted_once [OF two_devices_run s]
  show ?thesis
    using two_devices_run s by (auto simp: two_devices_stats_def)
qed

lemma one_click_run:
  "GetAnalyticsStats (Some (fixed_store one_click)) ''example.com'' 0 = Inr one_click_stats"
  by code_simp

lemma three_views_run:
  "GetAnalyticsStats (Some (fixed_store three_views)) ''example.com'' 0 = Inr three_views_stats"
  by code_simp

section \<open>The per-event maps and the page-view count\<close>

text \<open>
  Claim C1 says that the values of the page, device, OS and browser maps sum to the
  total page-view count. The loop adds to the four maps for every event and to the
  page-view count only under the guard \<open>e.Type == "pageview"\<close>: one stored \<open>click\<close>
  event gives a page map that sums to 1 and a page-view count of 0.
\<close>

theorem rate_sums_page_views_counterexample:
  "GetAnalyticsStats (Some (fixed_store one_click)) ''example.com'' 0 = Inr one_click_stats
   \<and> PagesRate one_click_stats = Some [(''/'', 1)]
   \<and> sum_values [(''/'', 1)] = 1
   \<and> TotalPageViews one_click_stats = 0
   \<and> sum_values [(''/'', 1)] \<noteq> TotalPageViews one_click_stats"
  using one_click_run by (simp add: one_click_stats_def sum_values_def)

text \<open>
  Claim C1, amended. The values of each of the four maps sum to the total page-view
  count plus the number of stored events whose \<open>Type\<close> is not \<open>pageview\<close>; they sum
  exactly to the page-view count when every stored event is a page view.
\<close>

theorem rate_sums_page_views:
  assumes "GetAnalyticsStats (Some db) site now = Inr st" and "db site = Inr es"
  shows "\<exists>pg dv os br.
      PagesRate st = Some pg \<and> DevicesRate st = Some dv \<and> OSsRate st = Some os
      \<and> BrowsersRate st = Some br
      \<and> sum_values pg = TotalPageViews st + int (length (filter (\<lambda>e. Type e \<noteq> ''pageview'') es))
      \<and> sum_values dv = sum_values pg \<and> sum_values os = sum_values pg
      \<and> sum_values br = sum_values pg
      \<and> ((\<forall>e \<in> set es. Type e = ''pageview'') \<longrightarrow>
           sum_values pg = TotalPageViews st \<and> sum_values dv = TotalPageViews st
           \<and> sum_values os = TotalPageViews st \<and> sum_values br = TotalPageViews st)"
proof -
  from assms obtain a where a: "count_events no_counters (sort_key Timestamp es) = Inr a"
    and st: "st = make_stats now a"
    by (auto elim!: GetAnalyticsStats_Inr)
  have n: "sum_values (pages a) = int (length es)" "sum_values (devices a) = int (length es)"
    "sum_values (oss a) = int (length es)" "sum_values (browsers a) = int (length es)"
    by (simp_all add: count_events_pages [OF a] count_events_devices [OF a]
        count_events_oss [OF a] count_events_browsers [OF a] sum_values_fold_incr
        no_counters_def empty_map_values)
  have v: "pageViewsCount a = int (length (filter (\<lambda>e. Type e = ''pageview'') es))"
    by (simp add: count_events_pageViewsCount [OF a] length_filter_sort_key no_counters_def)
  have c: "length (filter (\<lambda>e. Type e = ''pageview'') es)
      + length (filter (\<lambda>e. Type e \<noteq> ''pageview'') es) = length es"
    using sum_length_filter_compl [of "\<lambda>e. Type e = ''pageview''" es] by simp
  have eq: "int (length es) =
      pageViewsCount a + int (length (filter (\<lambda>e. Type e \<noteq> ''pageview'') es))"
    using c v by linarith
  have all: "filter (\<lambda>e. Type e \<noteq> ''pageview'') es = []"
    if "\<forall>e \<in> set es. Type e = ''pageview''"
    using that by (simp add: filter_empty_conv)
  have pv: "int (length es) = pageViewsCount a" if "\<forall>e \<in> set es. Type e = ''pageview''"
    using eq all [OF that] by simp
  have "sum_values (pages a) =
      pageViewsCount a + int (length (filter (\<lambda>e. Type e \<noteq> ''pageview'') es))"
    using n(1) eq by simp
  moreover have "sum_values (devices a) = sum_values (pages a)"
    "sum_values (oss a) = sum_values (pages a)" "sum_values (browsers a) = sum_values (pages a)"
    using n by simp_all
  moreover have "(\<forall>e \<in> set es. Type e = ''pageview'') \<longrightarrow>
      sum_values (pages a) = pageViewsCount a \<and> sum_values (devices a) = pageViewsCount a
      \<and> sum_values (oss a) = pageViewsCount a \<and> sum_values (browsers a) = pageViewsCount a"
    using n pv by simp
  ultimately show ?thesis
    unfolding st make_stats_def Let_def by simp
qed

text \<open>The three page views of one visitor: every map sums to the page-view count 3.\<close>

theorem rate_sums_page_views_witness:
  "GetAnalyticsStats (Some (fixed_store three_views)) ''example.com'' 0 = Inr three_views_stats
   \<and> fixed_store three_views ''example.com'' = Inr three_views
   \<and> list_all (\<lambda>e. Type e = ''pageview'') three_views
   \<and> sum_values [(''/'', 1), (''/foo'', 1), (''/bar'', 1)] = TotalPageViews three_views_stats
   \<and> sum_values [(''Unknown'', 3)] = TotalPageViews three_views_stats"
proof -
  have s: "fixed_store three_views ''example.com'' = Inr three_views"
    by (rule fixed_store_lists)
  have p: "list_all (\<lambda>e. Type e = ''pageview'') three_views"
    by (simp add: three_views_def ev_def)
  then have p': "\<forall>e \<in> set three_views. Type e = ''pageview''"
    by (simp only: list_all_iff)
  from rate_sums_page_views [OF three_views_run s] p'
  obtain pg dv where "PagesRate three_views_stats = Some pg"
    and "DevicesRate three_views_stats = Some dv"
    and "sum_values pg = TotalPageViews three_views_stats"
    and "sum_values dv = TotalPageViews three_views_stats"
    by blast
  then have "sum_values [(''/'', 1), (''/foo'', 1), (''/bar'', 1)]
      = TotalPageViews three_views_stats"
    and "sum_values [(''Unknown'', 3)] = TotalPageViews three_views_stats"
    by (simp_all add: three_views_stats_def)
  with three_views_run s p show ?thesis by simp
qed

section \<open>The pass over the sessions\<close>

lemma count_session_fields:
  "entryPages (count_session now v t) = incr (entryPages t) (EntryPage v)"
  "exitPages (count_session now v t) = incr (exitPages t) (ExitPage v)"
  "totalVisits (count_session now v t) = totalVisits t + 1"
  "onePageVisits (count_session now v t) = onePageVisits t + (if PagesVisited v = 1 then 1 else 0)"
  by (simp_all add: count_session_def Let_def)

lemma fold_count_session_field:
  assumes "\<And>v t. f (count_session now v t) = g v (f t)"
  shows "f (fold (count_session now) vs t) = fold g vs (f t)"
  by (induction vs arbitrary: t) (simp_all add: assms)

lemma fold_nested:
  "fold (\<lambda>(k, xs) t. fold f xs t) kxs t = fold f (concat (map snd kxs)) t"
  by (induction kxs arbitrary: t) (simp_all add: case_prod_beta)

lemma count_sessions_flat:
  "count_sessions now vm = fold (count_session now) (all_visits vm) no_totals"
  by (simp add: count_sessions_def all_visits_def fold_nested)

lemma count_sessions_entryPages:
  "entryPages (count_sessions now vm) = fold (\<lambda>v m. incr m (EntryPage v)) (all_visits vm) []"
  unfolding count_sessions_flat
  by (subst fold_count_session_field [where g = "\<lambda>v m. incr m (EntryPage v)"])
    (simp_all add: count_session_fields no_totals_def)

lemma count_sessions_exitPages:
  "exitPages (count_sessions now vm) = fold (\<lambda>v m. incr m (ExitPage v)) (all_visits vm) []"
  unfolding count_sessions_flat
  by (subst fold_count_session_field [where g = "\<lambda>v m. incr m (ExitPage v)"])
    (simp_all add: count_session_fields no_totals_def)

lemma count_sessions_totalVisits:
  "totalVisits (count_sessions now vm) = int (length (all_visits vm))"
proof -
  have "totalVisits (fold (count_session now) vs t) = totalVisits t + int (length vs)" for vs t
    by (induction vs arbitrary: t) (simp_all add: count_session_fields)
  then show ?thesis by (simp add: count_sessions_flat no_totals_def)
qed

lemma count_sessions_onePageVisits:
  "onePageVisits (count_sessions now vm)
     = int (length (filter (\<lambda>v. PagesVisited v = 1) (all_visits vm)))"
proof -
  have "onePageVisits (fold (count_session now) vs t)
      = onePageVisits t + int (length (filter (\<lambda>v. PagesVisited v = 1) vs))" for vs t
    by (induction vs arbitrary: t) (simp_all add: count_session_fields)
  then show ?thesis by (simp add: count_sessions_flat no_totals_def)
qed

section \<open>Entry pages, exit pages and the number of visits\<close>

text \<open>
  Claim C9. In every snapshot \<open>GetAnalyticsStats\<close> returns, the entry-page map and the
  exit-page map are present with one entry per key, the values of each sum to
  \<open>TotalVisits\<close>, and
  \<open>TotalVisits\<close> is the number of sessions the loop has built over all fingerprints;
  the entry map holds at each page the number of sessions that start there, the exit
  map the number of sessions that end there.
\<close>

theorem entry_exit_sum_to_total_visits:
  assumes "GetAnalyticsStats (Some db) site now = Inr st" and "db site = Inr es"
  shows "\<exists>a en ex.
      count_events no_counters (sort_key Timestamp es) = Inr a
      \<and> EntryPagesRate st = Some en \<and> ExitPagesRate st = Some ex
      \<and> distinct (map fst en) \<and> distinct (map fst ex)
      \<and> sum_values en = sum_values ex
      \<and> sum_values en = TotalVisits st \<and> sum_values ex = TotalVisits st
      \<and> TotalVisits st = int (length (all_visits (visitsMap a)))
      \<and> (\<forall>k. at_key en k
            = int (length (filter (\<lambda>v. EntryPage v = k) (all_visits (visitsMap a)))))
      \<and> (\<forall>k. at_key ex k
            = int (length (filter (\<lambda>v. ExitPage v = k) (all_visits (visitsMap a)))))"
proof -
  from assms obtain a where a: "count_events no_counters (sort_key Timestamp es) = Inr a"
    and st: "st = make_stats now a"
    by (auto elim!: GetAnalyticsStats_Inr)
  define t where "t = count_sessions now (visitsMap a)"
  have "sum_values (entryPages t) = int (length (all_visits (visitsMap a)))"
    "sum_values (exitPages t) = int (length (all_visits (visitsMap a)))"
    by (simp_all add: t_def count_sessions_entryPages count_sessions_exitPages
        sum_values_fold_incr empty_map_values)
  moreover have "totalVisits t = int (length (all_visits (visitsMap a)))"
    by (simp add: t_def count_sessions_totalVisits)
  moreover have "\<forall>k. at_key (entryPages t) k
      = int (length (filter (\<lambda>v. EntryPage v = k) (all_visits (visitsMap a))))"
    by (simp add: t_def count_sessions_entryPages at_key_fold_incr empty_map_values)
  moreover have "\<forall>k. at_key (exitPages t) k
      = int (length (filter (\<lambda>v. ExitPage v = k) (all_visits (visitsMap a))))"
    by (simp add: t_def count_sessions_exitPages at_key_fold_incr empty_map_values)
  moreover have "distinct (map fst (entryPages t))" "distinct (map fst (exitPages t))"
    by (simp_all add: t_def count_sessions_entryPages count_sessions_exitPages
        distinct_fold_incr)
  moreover have "EntryPagesRate st = Some (entryPages t)" "ExitPagesRate st = Some (exitPages t)"
    "TotalVisits st = totalVisits t"
    by (simp_all add: st make_stats_def Let_def t_def)
  ultimately show ?thesis using a by simp
qed

text \<open>
  The three page views of one visitor at 0, 5 and 40 minutes make two sessions: the
  entry pages \<open>/\<close> and \<open>/bar\<close>, the exit pages \<open>/foo\<close> and \<open>/bar\<close>, two visits.
\<close>

theorem entry_exit_sum_to_total_visits_witness:
  "GetAnalyticsStats (Some (fixed_store three_views)) ''example.com'' 0 = Inr three_views_stats
   \<and> fixed_store three_views ''example.com'' = Inr three_views
   \<and> EntryPagesRate three_views_stats = Some [(''/'', 1), (''/bar'', 1)]
   \<and> ExitPagesRate three_views_stats = Some [(''/foo'', 1), (''/bar'', 1)]
   \<and> sum_values [(''/'', 1), (''/bar'', 1)] = 2
   \<and> sum_values [(''/foo'', 1), (''/bar'', 1)] = 2
   \<and> TotalVisits three_views_stats = 2"
proof -
  have s: "fixed_store three_views ''example.com'' = Inr three_views"
    by (rule fixed_store_lists)
  from entry_exit_sum_to_total_visits [OF three_views_run s]
  obtain en ex where "EntryPagesRate three_views_stats = Some en"
    and "ExitPagesRate three_views_stats = Some ex"
    and "sum_values en = TotalVisits three_views_stats"
    and "sum_values ex = TotalVisits three_views_stats"
    by blast
  then have "sum_values [(''/'', 1), (''/bar'', 1)] = 2"
    and "sum_values [(''/foo'', 1), (''/bar'', 1)] = 2"
    by (simp_all add: three_views_stats_def)
  with three_views_run s show ?thesis by (simp add: three_views_stats_def)
qed

section \<open>Session reconstruction\<close>

lemma split_sessions_Nil_iff: "split_sessions es = [] \<longleftrightarrow> es = []"
  by (induction es rule: split_sessions.induct) (auto split: list.splits)

lemma split_sessions_groups_nonempty: "g \<in> set (split_sessions es) \<Longrightarrow> g \<noteq> []"
  by (induction es arbitrary: g rule: split_sessions.induct) (auto split: list.splits if_splits)

lemma concat_split_sessions: "concat (split_sessions es) = es"
  by (induction es rule: split_sessions.induct)
    (auto split: list.splits simp: split_sessions_Nil_iff)

lemma last_concat_nonempty:
  assumes "xss \<noteq> []" and "last xss \<noteq> []"
  shows "last (concat xss) = last (last xss)"
proof -
  have "concat xss = concat (butlast xss) @ last xss"
    using assms(1) by (metis append_butlast_last_id concat_append concat.simps self_append_conv)
  then show ?thesis using assms(2) by simp
qed

lemma last_last_split_sessions: "es \<noteq> [] \<Longrightarrow> last (last (split_sessions es)) = last es"
proof -
  assume ne: "es \<noteq> []"
  then have s: "split_sessions es \<noteq> []" by (simp add: split_sessions_Nil_iff)
  then have "last (split_sessions es) \<noteq> []"
    using split_sessions_groups_nonempty last_in_set by blast
  from last_concat_nonempty [OF s this] show ?thesis
    by (simp add: concat_split_sessions)
qed

lemma split_sessions_snoc:
  "es \<noteq> [] \<Longrightarrow> split_sessions (es @ [e]) =
     (if same_session (last es) e
      then butlast (split_sessions es) @ [last (split_sessions es) @ [e]]
      else split_sessions es @ [[e]])"
proof (induction es rule: split_sessions.induct)
  case 1
  then show ?case by simp
next
  case (2 x)
  then show ?case by simp
next
  case (3 e1 e2 es)
  have ne: "split_sessions (e2 # es) \<noteq> []" by (simp add: split_sessions_Nil_iff)
  have IH: "split_sessions (e2 # es @ [e]) =
     (if same_session (last (e2 # es)) e
      then butlast (split_sessions (e2 # es)) @ [last (split_sessions (e2 # es)) @ [e]]
      else split_sessions (e2 # es) @ [[e]])"
    using 3 by (cases "same_session e1 e2") auto
  obtain g gs where g: "split_sessions (e2 # es) = g # gs"
    using ne by (cases "split_sessions (e2 # es)") auto
  show ?case
  proof (cases "same_session e1 e2")
    case True
    then show ?thesis using IH g by (cases gs) (auto simp: butlast_append)
  next
    case False
    then show ?thesis using IH g by auto
  qed
qed

lemma session_of_single: "session_of [e] = new_visit (page_key e) (Timestamp e)"
  by (simp add: session_of_def new_visit_def)

lemma session_of_snoc:
  "g \<noteq> [] \<Longrightarrow> session_of (g @ [e]) =
     (session_of g)\<lparr>ExitPage := page_key e, PagesVisited := PagesVisited (session_of g) + 1,
        LastPageViewTimestamp := Timestamp e\<rparr>"
  by (simp add: session_of_def)

lemma same_session_iff:
  "same_session e1 e2 \<longleftrightarrow> \<not> Timestamp e2 - Timestamp e1 > VisitDuration"
  by (auto simp: same_session_def VisitDuration_def Minute_def)

lemma count_visit_other:
  "count_visit vm e p = Inr vm' \<Longrightarrow> fp \<noteq> HashedVisit e \<Longrightarrow> map_of vm' fp = map_of vm fp"
  unfolding count_visit_def Let_def
  by (auto split: option.splits if_splits simp: update_conv')

lemma count_visit_new:
  "count_visit vm e p = Inr vm' \<Longrightarrow> map_of vm (HashedVisit e) = None \<Longrightarrow>
     map_of vm' (HashedVisit e) = Some [new_visit p (Timestamp e)]"
  unfolding count_visit_def Let_def
  by (auto simp: update_conv')

lemma count_visit_known:
  assumes "count_visit vm e p = Inr vm'" and "map_of vm (HashedVisit e) = Some v"
  shows "v \<noteq> []"
    and "map_of vm' (HashedVisit e) =
      Some (if Timestamp e - LastPageViewTimestamp (last v) > VisitDuration
            then v @ [new_visit p (Timestamp e)]
            else butlast v @ [(last v)\<lparr>ExitPage := p,
                   PagesVisited := PagesVisited (last v) + 1,
                   LastPageViewTimestamp := Timestamp e\<rparr>])"
  using assms unfolding count_visit_def Let_def
  by (auto split: if_splits simp: update_conv' Sub_gt_VisitDuration)

lemma sessions_for_snoc_other:
  "fp \<noteq> HashedVisit e \<Longrightarrow> sessions_for fp (es @ [e]) = sessions_for fp es"
  by (simp add: sessions_for_def)

lemma sessions_for_snoc_new:
  "sessions_for (HashedVisit e) es = None \<Longrightarrow>
     sessions_for (HashedVisit e) (es @ [e]) = Some [new_visit (page_key e) (Timestamp e)]"
  by (auto simp: sessions_for_def Let_def session_of_single split: if_splits)

lemma sessions_for_snoc_known:
  assumes "sessions_for (HashedVisit e) es = Some v"
  shows "sessions_for (HashedVisit e) (es @ [e]) =
      Some (if Timestamp e - LastPageViewTimestamp (last v) > VisitDuration
            then v @ [new_visit (page_key e) (Timestamp e)]
            else butlast v @ [(last v)\<lparr>ExitPage := page_key e,
                   PagesVisited := PagesVisited (last v) + 1,
                   LastPageViewTimestamp := Timestamp e\<rparr>])"
proof -
  define g where "g = filter (\<lambda>x. HashedVisit x = HashedVisit e) es"
  from assms have ne: "g \<noteq> []" and v: "v = map session_of (split_sessions g)"
    by (auto simp: sessions_for_def Let_def g_def split: if_splits)
  have sne: "split_sessions g \<noteq> []" using ne by (simp add: split_sessions_Nil_iff)
  have lne: "last (split_sessions g) \<noteq> []"
    using sne split_sessions_groups_nonempty last_in_set by blast
  have lv: "last v = session_of (last (split_sessions g))"
    using sne by (simp add: v last_map)
  have ts: "LastPageViewTimestamp (last v) = Timestamp (last g)"
    by (simp add: lv session_of_def last_last_split_sessions [OF ne])
  have f: "filter (\<lambda>x. HashedVisit x = HashedVisit e) (es @ [e]) = g @ [e]"
    by (simp add: g_def)
  have bl: "butlast v = map session_of (butlast (split_sessions g))"
    by (simp add: v map_butlast)
  show ?thesis
    unfolding sessions_for_def Let_def f
    using split_sessions_snoc [OF ne, of e]
    by (simp add: same_session_iff ts [symmetric] session_of_single session_of_snoc [OF lne]
        lv [symmetric] bl v [symmetric])
qed

lemma count_event_sessions:
  assumes "count_event b e = Inr a" and "\<forall>fp. map_of (visitsMap b) fp = sessions_for fp es"
  shows "map_of (visitsMap a) fp = sessions_for fp (es @ [e])"
proof -
  note cv = count_event_Inr(6) [OF assms(1)]
  show ?thesis
  proof (cases "fp = HashedVisit e")
    case False
    then show ?thesis
      using count_visit_other [OF cv False] assms(2) by (simp add: sessions_for_snoc_other)
  next
    case True
    show ?thesis
    proof (cases "map_of (visitsMap b) (HashedVisit e)")
      case None
      then show ?thesis
        using count_visit_new [OF cv None] assms(2) True by (simp add: sessions_for_snoc_new)
    next
      case (Some v)
      then have "sessions_for (HashedVisit e) es = Some v" using assms(2) by simp
      from sessions_for_snoc_known [OF this] count_visit_known(2) [OF cv Some] True
      show ?thesis by simp
    qed
  qed
qed

lemma count_events_sessions:
  "count_events no_counters es = Inr a \<Longrightarrow> map_of (visitsMap a) fp = sessions_for fp es"
proof (induction es arbitrary: a fp rule: rev_induct)
  case Nil
  then show ?case by (auto simp: no_counters_def sessions_for_def)
next
  case (snoc e es)
  from snoc.prems obtain b where b: "count_events no_counters es = Inr b"
    and s: "count_event b e = Inr a"
    by (auto simp: count_events_append split: sum.splits)
  show ?case
    by (rule count_event_sessions [OF s]) (simp add: snoc.IH [OF b])
qed

text \<open>
  Claim C3. Let the loop have folded the events \<open>es\<close> (in the order given, time-sorted
  or not) into the counters \<open>a\<close>, and let it fold one more event \<open>e\<close>. Then the
  sessions recorded for every fingerprint are those of the specification: the
  fingerprint's events are cut between two consecutive events exactly where the gap
  between their timestamps exceeds 30 minutes, before and after \<open>e\<close>. For the
  fingerprint of \<open>e\<close> itself: a fingerprint not seen before gets one new session; for a
  known one the slice is not empty, a brand-new session is appended when the event
  is more than \<open>VisitDuration\<close> after the last session's last page view, and otherwise
  only the last session changes (exit page set to the event's page, page count plus
  one, last page view at the event's timestamp). No other fingerprint is touched.
\<close>

theorem sessions_split_at_timeout:
  assumes "count_events no_counters es = Inr a" and "count_event a e = Inr a'"
  shows "(\<forall>fp. map_of (visitsMap a) fp = sessions_for fp es)
    \<and> (\<forall>fp. map_of (visitsMap a') fp = sessions_for fp (es @ [e]))
    \<and> (case map_of (visitsMap a) (HashedVisit e) of
          None \<Rightarrow>
            map_of (visitsMap a') (HashedVisit e) = Some [new_visit (page_key e) (Timestamp e)]
        | Some v \<Rightarrow>
            v \<noteq> [] \<and>
            map_of (visitsMap a') (HashedVisit e) =
              Some (if Timestamp e - LastPageViewTimestamp (last v) > 30 * Minute
                    then v @ [new_visit (page_key e) (Timestamp e)]
                    else butlast v @ [(last v)\<lparr>ExitPage := page_key e,
                           PagesVisited := PagesVisited (last v) + 1,
                           LastPageViewTimestamp := Timestamp e\<rparr>]))
    \<and> (\<forall>fp. fp \<noteq> HashedVisit e \<longrightarrow> map_of (visitsMap a') fp = map_of (visitsMap a) fp)"
proof -
  note cv = count_event_Inr(6) [OF assms(2)]
  have vd: "VisitDuration = 30 * Minute" by (simp add: VisitDuration_def)
  have 1: "\<forall>fp. map_of (visitsMap a) fp = sessions_for fp es"
    using count_events_sessions [OF assms(1)] by simp
  have 2: "\<forall>fp. map_of (visitsMap a') fp = sessions_for fp (es @ [e])"
    using count_event_sessions [OF assms(2) 1] by simp
  have 3: "map_of (visitsMap a') (HashedVisit e) = Some [new_visit (page_key e) (Timestamp e)]"
    if "map_of (visitsMap a) (HashedVisit e) = None"
    using count_visit_new [OF cv that] .
  have 4: "v \<noteq> [] \<and> map_of (visitsMap a') (HashedVisit e) =
      Some (if Timestamp e - LastPageViewTimestamp (last v) > 30 * Minute
            then v @ [new_visit (page_key e) (Timestamp e)]
            else butlast v @ [(last v)\<lparr>ExitPage := page_key e,
                   PagesVisited := PagesVisited (last v) + 1,
                   LastPageViewTimestamp := Timestamp e\<rparr>])"
    if "map_of (visitsMap a) (HashedVisit e) = Some v" for v
    using count_visit_known [OF cv that] by (simp only: vd) simp
  have 5: "\<forall>fp. fp \<noteq> HashedVisit e \<longrightarrow> map_of (visitsMap a') fp = map_of (visitsMap a) fp"
    using count_visit_other [OF cv] by simp
  from 3 4 have "case map_of (visitsMap a) (HashedVisit e) of
          None \<Rightarrow>
            map_of (visitsMap a') (HashedVisit e) = Some [new_visit (page_key e) (Timestamp e)]
        | Some v \<Rightarrow>
            v \<noteq> [] \<and>
            map_of (visitsMap a') (HashedVisit e) =
              Some (if Timestamp e - LastPageViewTimestamp (last v) > 30 * Minute
                    then v @ [new_visit (page_key e) (Timestamp e)]
                    else butlast v @ [(last v)\<lparr>ExitPage := page_key e,
                           PagesVisited := PagesVisited (last v) + 1,
                           LastPageViewTimestamp := Timestamp e\<rparr>])"
    by (cases "map_of (visitsMap a) (HashedVisit e)") simp_all
  with 1 2 5 show ?thesis by blast
qed

lemma first_views_run: "count_events no_counters first_views = Inr first_views_counters"
  by code_simp

lemma third_view_run: "count_event first_views_counters third_view = Inr third_view_counters"
  by code_simp

text \<open>
  Page views of one visitor at 0 and 5 minutes share a session; the next one, at 40
  minutes, is 35 minutes after the last page view and opens a second session.
\<close>

theorem sessions_split_at_timeout_witness:
  "count_events no_counters first_views = Inr first_views_counters
   \<and> count_event first_views_counters third_view = Inr third_view_counters
   \<and> sessions_for ''F1'' first_views = Some [first_session]
   \<and> sessions_for ''F1'' (first_views @ [third_view]) = Some [first_session, second_session]
   \<and> map_of (visitsMap third_view_counters) (HashedVisit third_view)
       = Some ([first_session] @ [new_visit (page_key third_view) (Timestamp third_view)])"
proof -
  note t = sessions_split_at_timeout [OF first_views_run third_view_run]
  have a: "map_of (visitsMap first_views_counters) ''F1'' = Some [first_session]"
    by (simp add: first_views_counters_def)
  have b: "map_of (visitsMap third_view_counters) ''F1''
      = Some [first_session, second_session]"
    by (simp add: third_view_counters_def)
  have f: "HashedVisit third_view = ''F1''"
    by (simp add: third_view_def ev_def)
  have n: "new_visit (page_key third_view) (Timestamp third_view) = second_session"
    by code_simp
  from t a have 1: "sessions_for ''F1'' first_views = Some [first_session]"
    by metis
  from t b have 2: "sessions_for ''F1'' (first_views @ [third_view])
      = Some [first_session, second_session]"
    by metis
  show ?thesis
    using first_views_run third_view_run 1 2 b by (simp add: f n)
qed

section \<open>The normalizer\<close>

lemma host_run_Nil_iff: "host_run s = [] \<longleftrightarrow> s = [] \<or> hd s = CHR ''/''"
  by (cases s) (simp_all add: host_run_def)

lemma strip_scheme_no_host: "host_run s = [] \<Longrightarrow> strip_scheme s = None"
  by (cases s) (auto simp: host_run_def strip_scheme_def split: if_splits)

lemma match_here_None_iff: "match_here s = None \<longleftrightarrow> host_run s = []"
  by (auto simp: match_here_def strip_scheme_no_host split: option.splits if_splits)

lemma FindStringSubmatch_None_iff:
  "FindStringSubmatch s = None \<longleftrightarrow> set s \<subseteq> {CHR ''/''}"
proof (induction s)
  case Nil
  then show ?case by (simp add: match_here_None_iff host_run_def)
next
  case (Cons c t)
  show ?case
  proof (cases "c = CHR ''/''")
    case True
    then have "match_here (c # t) = None"
      by (simp add: match_here_None_iff host_run_def)
    then show ?thesis using Cons True by simp
  next
    case False
    then have "match_here (c # t) \<noteq> None"
      by (simp add: match_here_None_iff host_run_def)
    then show ?thesis using False by auto
  qed
qed

lemma extract_fails_iff:
  "isl (extractDomainAndPath s) \<longleftrightarrow> set s \<subseteq> {CHR ''/''}"
  using FindStringSubmatch_None_iff [of s]
  by (auto simp: extractDomainAndPath_def split: option.splits)

lemma extract_error: "extractDomainAndPath s = Inl err \<Longrightarrow> err = ExtractError s"
  by (auto simp: extractDomainAndPath_def split: option.splits)

lemma host_run_append:
  assumes "CHR ''/'' \<notin> set h" and "p = [] \<or> hd p = CHR ''/''"
  shows "host_run (h @ p) = h"
proof -
  have h: "\<And>x. x \<in> set h \<Longrightarrow> x \<noteq> CHR ''/''"
    using assms(1) by auto
  have "takeWhile (\<lambda>c. c \<noteq> CHR ''/'') p = []"
    using assms(2) by (cases p) auto
  then show ?thesis
    by (simp add: host_run_def takeWhile_append2 [OF h])
qed

lemma dot_star_all: "CHR 0x0A \<notin> set p \<Longrightarrow> dot_star p = p"
  by (auto simp: dot_star_def)

lemma match_here_host_path:
  assumes "h \<noteq> []" and "CHR ''/'' \<notin> set h" and "p = [] \<or> hd p = CHR ''/''"
    and "CHR 0x0A \<notin> set p" and "strip_scheme (h @ p) = None"
  shows "match_here (h @ p) = Some (h, p)"
  using assms by (simp add: match_here_def host_run_append dot_star_all)

lemma strip_scheme_http: "strip_scheme (''http://'' @ r) = Some r"
  by (simp add: strip_scheme_def)

lemma strip_scheme_https: "strip_scheme (''https://'' @ r) = Some r"
  by (simp add: strip_scheme_def)

lemma match_here_scheme:
  assumes "h \<noteq> []" and "CHR ''/'' \<notin> set h" and "p = [] \<or> hd p = CHR ''/''"
    and "CHR 0x0A \<notin> set p" and "strip_scheme s = Some (h @ p)"
  shows "match_here s = Some (h, p)"
  using assms by (simp add: match_here_def host_run_append dot_star_all)

lemma FindStringSubmatch_match_here:
  "match_here s = Some m \<Longrightarrow> FindStringSubmatch s = Some m"
  by (cases s) simp_all

lemma strip_scheme_Some_host:
  assumes "strip_scheme (h @ p) = Some r" and "CHR ''/'' \<notin> set h"
    and "p = [] \<or> hd p = CHR ''/''"
  shows "h = ''http:'' \<or> h = ''https:''"
proof -
  have h: "host_run (h @ p) = h"
    using assms(2,3) by (rule host_run_append)
  from assms(1) consider "take 8 (h @ p) = ''https://''" | "take 7 (h @ p) = ''http://''"
    by (auto simp: strip_scheme_def split: if_splits)
  then show ?thesis
  proof cases
    case 1
    then have "h @ p = ''https://'' @ drop 8 (h @ p)"
      by (metis append_take_drop_id)
    then have "host_run (h @ p) = host_run (''https://'' @ drop 8 (h @ p))"
      by simp
    then have "h = host_run (''https://'' @ drop 8 (h @ p))"
      by (simp only: h)
    then show ?thesis by (simp add: host_run_def)
  next
    case 2
    then have "h @ p = ''http://'' @ drop 7 (h @ p)"
      by (metis append_take_drop_id)
    then have "host_run (h @ p) = host_run (''http://'' @ drop 7 (h @ p))"
      by simp
    then have "h = host_run (''http://'' @ drop 7 (h @ p))"
      by (simp only: h)
    then show ?thesis by (simp add: host_run_def)
  qed
qed

lemma remove_html_suffix: "remove_html (q @ ''.html'') = q"
  by (simp add: remove_html_def)

text \<open>
  Claim C8. A URL string made of an optional scheme \<open>http://\<close> or \<open>https://\<close>, a host
  (not empty, without a slash, and not itself \<open>http:\<close> or \<open>https:\<close> when there is no
  scheme) and a path (empty, or starting with a slash; without a line feed) is
  decomposed into that host and that path, an empty path becoming \<open>/\<close>. The page key
  of an event with this URL is the path with one trailing \<open>.html\<close> removed.
\<close>

theorem normalizer_host_and_path:
  assumes "scheme = [] \<or> scheme = ''http://'' \<or> scheme = ''https://''"
    and "host \<noteq> []" and "CHR ''/'' \<notin> set host"
    and "scheme = [] \<Longrightarrow> host \<noteq> ''http:'' \<and> host \<noteq> ''https:''"
    and "path = [] \<or> hd path = CHR ''/''" and "CHR 0x0A \<notin> set path"
    and "URL e = scheme @ host @ path"
  shows "extractDomainAndPath (URL e) = Inr (host, if path = [] then ''/'' else path)
    \<and> url_host e = host
    \<and> page_key e = remove_html (if path = [] then ''/'' else path)
    \<and> (\<forall>q. path = q @ ''.html'' \<longrightarrow> page_key e = q)
    \<and> (\<forall>a a'. count_event a e = Inr a' \<longrightarrow> pages a' = incr (pages a) (page_key e))"
proof -
  have m: "match_here (URL e) = Some (host, path)"
  proof -
    from assms(1) consider "scheme = []" | "scheme = ''http://''" | "scheme = ''https://''"
      by blast
    then show ?thesis
    proof cases
      case 1
      then have "strip_scheme (host @ path) = None"
        using strip_scheme_Some_host [OF _ assms(3,5)] assms(4)
        by (cases "strip_scheme (host @ path)") auto
      then show ?thesis
        using match_here_host_path [OF assms(2,3,5,6)] 1 assms(7) by simp
    next
      case 2
      then show ?thesis
        using match_here_scheme [OF assms(2,3,5,6) strip_scheme_http] assms(7) by simp
    next
      case 3
      then show ?thesis
        using match_here_scheme [OF assms(2,3,5,6) strip_scheme_https] assms(7) by simp
    qed
  qed
  have x: "extractDomainAndPath (URL e) = Inr (host, if path = [] then ''/'' else path)"
    by (simp add: extractDomainAndPath_def FindStringSubmatch_match_here [OF m])
  have k: "page_key e = remove_html (if path = [] then ''/'' else path)"
    by (simp add: page_key_def x)
  have "\<forall>q. path = q @ ''.html'' \<longrightarrow> page_key e = q"
    by (simp add: k remove_html_suffix)
  moreover have "\<forall>a a'. count_event a e = Inr a' \<longrightarrow> pages a' = incr (pages a) (page_key e)"
    by (simp add: count_event_Inr)
  moreover have "url_host e = host" by (simp add: url_host_def x)
  ultimately show ?thesis using x k by blast
qed

text \<open>The URL \<open>https://example.com/page.html\<close> has the host \<open>example.com\<close> and the page key \<open>/page\<close>.\<close>

theorem normalizer_host_and_path_witness:
  "URL from_hn = ''https://'' @ ''example.com'' @ ''/page.html''
   \<and> extractDomainAndPath (URL from_hn) = Inr (''example.com'', ''/page.html'')
   \<and> url_host from_hn = ''example.com''
   \<and> page_key from_hn = ''/page''"
proof -
  have u: "URL from_hn = ''https://'' @ ''example.com'' @ ''/page.html''"
    by (simp add: from_hn_def ev_def)
  have "extractDomainAndPath (URL from_hn)
      = Inr (''example.com'', if ''/page.html'' = [] then ''/'' else ''/page.html'')
    \<and> url_host from_hn = ''example.com''
    \<and> page_key from_hn = remove_html (if ''/page.html'' = [] then ''/'' else ''/page.html'')
    \<and> (\<forall>q. ''/page.html'' = q @ ''.html'' \<longrightarrow> page_key from_hn = q)
    \<and> (\<forall>a a'. count_event a from_hn = Inr a' \<longrightarrow> pages a' = incr (pages a) (page_key from_hn))"
    by (rule normalizer_host_and_path [where scheme = "''https://''"]) (simp_all add: u)
  then have "extractDomainAndPath (URL from_hn) = Inr (''example.com'', ''/page.html'')"
    and "url_host from_hn = ''example.com''"
    and "page_key from_hn = ''/page''"
    by (simp_all add: remove_html_def)
  with u show ?thesis by simp
qed

section \<open>Errors of the aggregation\<close>

text \<open>The slices of the visits map are never empty, so \<open>v[len(v)-1]\<close> never panics.\<close>

lemma count_visit_nonempty:
  assumes "count_visit vm e p = Inr vm'" and "\<forall>k. map_of vm k \<noteq> Some []"
  shows "\<forall>k. map_of vm' k \<noteq> Some []"
  using assms unfolding count_visit_def Let_def
  by (auto split: option.splits if_splits simp: update_conv')

lemma count_visit_error:
  "count_visit vm e p = Inl err \<Longrightarrow> \<forall>k. map_of vm k \<noteq> Some [] \<Longrightarrow> False"
  unfolding count_visit_def Let_def
  by (auto split: option.splits if_splits)

lemma extract_refused: "extractDomainAndPath s = Inl err \<Longrightarrow> refused err s"
  by (auto simp: refused_def dest: extract_error)

lemma count_source_error:
  "count_source src d r = Inl err \<Longrightarrow> refused err r"
  unfolding count_source_def Let_def
  by (auto split: if_splits sum.splits prod.splits dest: extract_refused)

lemma count_event_error:
  assumes "count_event a e = Inl err" and "\<forall>k. map_of (visitsMap a) k \<noteq> Some []"
  shows "refused err (URL e) \<or> refused err (Referrer e)"
  using assms unfolding count_event_def Let_def
  by (auto split: sum.splits prod.splits if_splits
      dest: extract_refused count_source_error count_visit_error)

lemma count_event_nonempty:
  assumes "count_event a e = Inr a'" and "\<forall>k. map_of (visitsMap a) k \<noteq> Some []"
  shows "\<forall>k. map_of (visitsMap a') k \<noteq> Some []"
  using count_visit_nonempty [OF count_event_Inr(6) [OF assms(1)] assms(2)] .

lemma count_events_error:
  assumes "count_events a es = Inl err" and "\<forall>k. map_of (visitsMap a) k \<noteq> Some []"
  shows "\<exists>e \<in> set es. refused err (URL e) \<or> refused err (Referrer e)"
  using assms
proof (induction es arbitrary: a)
  case Nil
  then show ?case by simp
next
  case (Cons e es)
  show ?case
  proof (cases "count_event a e")
    case (Inl x)
    then have "x = err" using Cons.prems(1) by simp
    then show ?thesis using count_event_error [OF Inl Cons.prems(2)] by auto
  next
    case (Inr b)
    then have "count_events b es = Inl err" using Cons.prems(1) by simp
    from Cons.IH [OF this count_event_nonempty [OF Inr Cons.prems(2)]]
    show ?thesis by auto
  qed
qed

lemma count_event_malformed:
  assumes "isl (extractDomainAndPath (URL e))
      \<or> (Referrer e \<noteq> [] \<and> isl (extractDomainAndPath (Referrer e)))"
  shows "isl (count_event a e)"
  using assms unfolding count_event_def count_source_def Let_def
  by (auto split: sum.splits prod.splits simp: isl_def)

lemma count_events_malformed:
  assumes "e \<in> set es"
    and "isl (extractDomainAndPath (URL e))
      \<or> (Referrer e \<noteq> [] \<and> isl (extractDomainAndPath (Referrer e)))"
  shows "isl (count_events a es)"
  using assms(1)
proof (induction es arbitrary: a)
  case Nil
  then show ?case by simp
next
  case (Cons x xs)
  show ?case
  proof (cases "count_event a x")
    case (Inl err)
    then show ?thesis by simp
  next
    case (Inr b)
    have "x \<noteq> e"
      using count_event_malformed [OF assms(2), of a] Inr by auto
    then have "e \<in> set xs" using Cons.prems by simp
    from Cons.IH [OF this] show ?thesis by (simp add: Inr)
  qed
qed

text \<open>
  Claim C7. When the store lists an event whose URL, or whose non-empty referrer, the
  normalizer refuses (the strings without a host: the empty string and the strings of
  slashes only), \<open>GetAnalyticsStats\<close> returns the normalizer's error for one of the
  listed events and no snapshot, and \<open>Collect\<close> ends with that error without sending a
  sample.
\<close>

theorem malformed_url_aborts:
  assumes "db site = Inr es" and "e \<in> set es"
    and "isl (extractDomainAndPath (URL e))
      \<or> (Referrer e \<noteq> [] \<and> isl (extractDomainAndPath (Referrer e)))"
  shows "\<exists>link. GetAnalyticsStats (Some db) site now = Inl (ExtractError link)
      \<and> Collect_metrics (NewAnalyticsCollector labels (Some db) site) now = Inl (ExtractError link)
      \<and> set link \<subseteq> {CHR ''/''}
      \<and> link \<in> URL ` set es \<union> Referrer ` set es"
proof -
  have "e \<in> set (sort_key Timestamp es)" using assms(2) by simp
  from count_events_malformed [OF this assms(3)]
  obtain err where err: "count_events no_counters (sort_key Timestamp es) = Inl err"
    by (auto simp: isl_def)
  have "\<forall>k. map_of (visitsMap no_counters) k \<noteq> Some []"
    by (simp add: no_counters_def)
  from count_events_error [OF err this]
  obtain x where x: "x \<in> set es"
    and c: "refused err (URL x) \<or> refused err (Referrer x)"
    by auto
  obtain link where l: "err = ExtractError link" and m: "link = URL x \<or> link = Referrer x"
    and r: "isl (extractDomainAndPath link)"
    using c by (auto simp: refused_def)
  have g: "GetAnalyticsStats (Some db) site now = Inl (ExtractError link)"
    by (simp add: GetAnalyticsStats_def assms(1) err l)
  have "Collect_metrics (NewAnalyticsCollector labels (Some db) site) now = Inl (ExtractError link)"
    by (simp add: Collect_metrics_def NewAnalyticsCollector_def g)
  moreover have "set link \<subseteq> {CHR ''/''}"
    using r by (simp only: extract_fails_iff)
  moreover have "link \<in> URL ` set es \<union> Referrer ` set es"
    using x m by auto
  ultimately show ?thesis using g by blast
qed

text \<open>
  A page view with the referrer \<open>//\<close> is listed after a well-formed one: the call
  returns the error for \<open>//\<close>.
\<close>

theorem malformed_url_aborts_witness:
  "fixed_store bad_referrer ''example.com'' = Inr bad_referrer
   \<and> bad_referrer ! 1 \<in> set bad_referrer
   \<and> Referrer (bad_referrer ! 1) = ''//''
   \<and> isl (extractDomainAndPath (Referrer (bad_referrer ! 1)))
   \<and> GetAnalyticsStats (Some (fixed_store bad_referrer)) ''example.com'' 0
       = Inl (ExtractError ''//'')
   \<and> Collect_metrics (NewAnalyticsCollector [(''domain'', ''example.com'')]
         (Some (fixed_store bad_referrer)) ''example.com'') 0 = Inl (ExtractError ''//'')"
proof -
  have s: "fixed_store bad_referrer ''example.com'' = Inr bad_referrer"
    by (rule fixed_store_lists)
  have m: "bad_referrer ! 1 \<in> set bad_referrer"
    by (simp add: bad_referrer_def)
  have r: "Referrer (bad_referrer ! 1) = ''//''"
    by (simp add: bad_referrer_def ev_def)
  have i: "isl (extractDomainAndPath (Referrer (bad_referrer ! 1)))"
    unfolding r by (simp add: extract_fails_iff)
  have g: "GetAnalyticsStats (Some (fixed_store bad_referrer)) ''example.com'' 0
      = Inl (ExtractError ''//'')"
    by code_simp
  from malformed_url_aborts [where db = "fixed_store bad_referrer" and site = "''example.com''"
      and es = bad_referrer and e = "bad_referrer ! 1" and now = 0
      and labels = "[(''domain'', ''example.com'')]"] s m i r
  obtain link where "GetAnalyticsStats (Some (fixed_store bad_referrer)) ''example.com'' 0
      = Inl (ExtractError link)"
    and "Collect_metrics (NewAnalyticsCollector [(''domain'', ''example.com'')]
         (Some (fixed_store bad_referrer)) ''example.com'') 0 = Inl (ExtractError link)"
    by auto
  with g have "Collect_metrics (NewAnalyticsCollector [(''domain'', ''example.com'')]
         (Some (fixed_store bad_referrer)) ''example.com'') 0 = Inl (ExtractError ''//'')"
    by simp
  with s m r i g show ?thesis by simp
qed

section \<open>Sources\<close>

lemma referrer_label_last_two: "referrer_label host = last_two_labels host"
proof -
  define ls where "ls = Split host (CHR ''.'')"
  show ?thesis
  proof (cases "length ls > 1")
    case True
    then have ne: "ls \<noteq> []" by auto
    have "rev ls ! 1 = ls ! (length ls - Suc 1)"
      using True by (intro rev_nth)
    moreover have "rev ls ! 0 = ls ! (length ls - Suc 0)"
      using ne by (intro rev_nth) simp
    ultimately have "rev ls ! 1 = ls ! (length ls - 2)" "rev ls ! 0 = ls ! (length ls - 1)"
      by (simp_all add: numeral_2_eq_2)
    then show ?thesis
      using True by (simp add: referrer_label_def last_two_labels_def Let_def ls_def [symmetric])
  next
    case False
    then show ?thesis
      by (simp add: referrer_label_def last_two_labels_def Let_def ls_def [symmetric])
  qed
qed

lemma count_source_direct: "count_source src d [] = Inr (incr src ''Direct/None'')"
  by (simp add: count_source_def)

lemma count_source_referrer:
  assumes "r \<noteq> []" and "count_source src d r = Inr src'"
  shows "\<exists>rhost rpath. extractDomainAndPath r = Inr (rhost, rpath)
      \<and> src' = (if d \<noteq> rhost then incr src (last_two_labels rhost) else src)"
  using assms unfolding count_source_def Let_def
  by (auto split: sum.splits prod.splits if_splits simp: referrer_label_last_two)

lemma from_hn_run: "count_event no_counters from_hn = Inr from_hn_counters"
  by code_simp

lemma internal_nav_run: "count_event no_counters internal_nav = Inr internal_nav_counters"
  by code_simp

text \<open>
  Claim C5. For every event the loop accepts: with an empty referrer the value at the
  key \<open>Direct/None\<close> of the source map grows by one and no other value changes;
  with a non-empty referrer the normalizer yields the referrer's host, the source map
  is left as it is when that host equals the host of the event's URL, and otherwise
  the value at the label made of the last two dot-separated labels of the referrer
  host grows by one and no other value changes. The host \<open>news.ycombinator.com\<close> has
  the label \<open>ycombinator.com\<close>.
\<close>

theorem source_bucket_of_event:
  assumes "count_event a e = Inr a'"
  shows "(Referrer e = [] \<longrightarrow>
        (\<forall>k. at_key (sources a') k
           = at_key (sources a) k + (if k = ''Direct/None'' then 1 else 0)))
    \<and> (Referrer e \<noteq> [] \<longrightarrow>
        (\<exists>rhost rpath. extractDomainAndPath (Referrer e) = Inr (rhost, rpath)
           \<and> (rhost = url_host e \<longrightarrow> sources a' = sources a)
           \<and> (rhost \<noteq> url_host e \<longrightarrow>
                (\<forall>k. at_key (sources a') k
                   = at_key (sources a) k + (if k = last_two_labels rhost then 1 else 0)))))
    \<and> last_two_labels ''news.ycombinator.com'' = ''ycombinator.com''"
proof -
  note cs = count_event_Inr(7) [OF assms]
  have 1: "\<forall>k. at_key (sources a') k
      = at_key (sources a) k + (if k = ''Direct/None'' then 1 else 0)"
    if "Referrer e = []"
  proof -
    have "sources a' = incr (sources a) ''Direct/None''"
      using cs that by (simp add: count_source_direct)
    then show ?thesis by (simp add: at_key_incr)
  qed
  have 2: "\<exists>rhost rpath. extractDomainAndPath (Referrer e) = Inr (rhost, rpath)
           \<and> (rhost = url_host e \<longrightarrow> sources a' = sources a)
           \<and> (rhost \<noteq> url_host e \<longrightarrow>
                (\<forall>k. at_key (sources a') k
                   = at_key (sources a) k + (if k = last_two_labels rhost then 1 else 0)))"
    if "Referrer e \<noteq> []"
  proof -
    from count_source_referrer [OF that cs] obtain rhost rpath
      where x: "extractDomainAndPath (Referrer e) = Inr (rhost, rpath)"
        and s: "sources a' =
          (if url_host e \<noteq> rhost then incr (sources a) (last_two_labels rhost) else sources a)"
      by blast
    have "rhost = url_host e \<longrightarrow> sources a' = sources a"
      using s by simp
    moreover have "rhost \<noteq> url_host e \<longrightarrow>
        (\<forall>k. at_key (sources a') k
           = at_key (sources a) k + (if k = last_two_labels rhost then 1 else 0))"
      using s by (auto simp: at_key_incr)
    ultimately show ?thesis using x by blast
  qed
  have 3: "last_two_labels ''news.ycombinator.com'' = ''ycombinator.com''"
    by code_simp
  from 1 2 3 show ?thesis by blast
qed

text \<open>
  A page view of \<open>https://example.com/page.html\<close> coming from
  \<open>https://news.ycombinator.com/item\<close> counts for \<open>ycombinator.com\<close>; one coming from
  \<open>https://example.com/a\<close> leaves the source map empty; one without a referrer counts
  for \<open>Direct/None\<close>.
\<close>

theorem source_bucket_of_event_witness:
  "count_event no_counters from_hn = Inr from_hn_counters
   \<and> extractDomainAndPath (Referrer from_hn) = Inr (''news.ycombinator.com'', ''/item'')
   \<and> url_host from_hn = ''example.com''
   \<and> at_key (sources from_hn_counters) ''ycombinator.com'' = 1
   \<and> at_key (sources from_hn_counters) ''news.ycombinator.com'' = 0
   \<and> count_event no_counters internal_nav = Inr internal_nav_counters
   \<and> sources internal_nav_counters = []
   \<and> count_event first_views_counters third_view = Inr third_view_counters
   \<and> Referrer third_view = []
   \<and> at_key (sources third_view_counters) ''Direct/None''
       = at_key (sources first_views_counters) ''Direct/None'' + 1"
proof -
  have x: "extractDomainAndPath (Referrer from_hn) = Inr (''news.ycombinator.com'', ''/item'')"
    by code_simp
  have u: "url_host from_hn = ''example.com''"
    by code_simp
  have r: "Referrer from_hn \<noteq> []" "Referrer third_view = []"
    by (simp_all add: from_hn_def third_view_def ev_def)
  have l: "last_two_labels ''news.ycombinator.com'' = ''ycombinator.com''"
    using source_bucket_of_event [OF from_hn_run] by blast
  have z: "at_key (sources no_counters) k = 0" for k
    by (simp add: no_counters_def empty_map_values)
  from source_bucket_of_event [OF from_hn_run] r(1) x u
  have "\<forall>k. at_key (sources from_hn_counters) k
      = at_key (sources no_counters) k
        + (if k = last_two_labels ''news.ycombinator.com'' then 1 else 0)"
    by auto
  then have a: "at_key (sources from_hn_counters) ''ycombinator.com'' = 1"
    and b: "at_key (sources from_hn_counters) ''news.ycombinator.com'' = 0"
    by (simp_all add: l z)
  from source_bucket_of_event [OF third_view_run] r(2)
  have c: "at_key (sources third_view_counters) ''Direct/None''
      = at_key (sources first_views_counters) ''Direct/None'' + 1"
    by simp
  have d: "sources internal_nav_counters = []"
    by (simp add: internal_nav_counters_def)
  from from_hn_run x u a b internal_nav_run d third_view_run r(2) c
  show ?thesis by simp
qed

section \<open>The scrape\<close>

lemma send_all_ok: "\<forall>x \<in> set xs. \<not> isl x \<Longrightarrow> send_all xs = Inr (map projr xs)"
proof (induction xs)
  case Nil
  then show ?case by simp
next
  case (Cons x xs)
  then show ?case by (cases x) simp_all
qed

lemma rate_metrics_ok:
  assumes "map_of (metrics c) key = Some d" and "length (variableLabels d) = 1"
  shows "\<forall>x \<in> set (rate_metrics c key m). \<not> isl x"
  using assms
  by (cases m) (auto simp: rate_metrics_def MustNewConstMetric_def)

lemma new_collector_lookup:
  "map_of (metrics (NewAnalyticsCollector labels db site)) ''unique_visitors_total''
     = Some (NewDesc ''unique_visitors_total'' ''Total number of unique visitors'' [] labels)"
  "map_of (metrics (NewAnalyticsCollector labels db site)) ''visits_total''
     = Some (NewDesc ''visits_total'' ''Total number of visitors'' [] labels)"
  "map_of (metrics (NewAnalyticsCollector labels db site)) ''total_page_views''
     = Some (NewDesc ''page_views'' ''Total number of page views'' [] labels)"
  "map_of (metrics (NewAnalyticsCollector labels db site)) ''current_visitors''
     = Some (NewDesc ''current_visitors'' ''Current visitors'' [] labels)"
  "map_of (metrics (NewAnalyticsCollector labels db site)) ''bounce_rate''
     = Some (NewDesc ''bounce_rate'' ''Bounce rate in %'' [] labels)"
  "map_of (metrics (NewAnalyticsCollector labels db site)) ''page_rate''
     = Some (NewDesc ''page_rate'' ''Rating of page'' [''page''] labels)"
  "map_of (metrics (NewAnalyticsCollector labels db site)) ''source_rate''
     = Some (NewDesc ''source_rate'' ''Rating of source'' [''source''] labels)"
  "map_of (metrics (NewAnalyticsCollector labels db site)) ''os_rate''
     = Some (NewDesc ''os_rate'' ''Rating of OS'' [''os''] labels)"
  "map_of (metrics (NewAnalyticsCollector labels db site)) ''browser_rate''
     = Some (NewDesc ''browser_rate'' ''Rating of browser'' [''browser''] labels)"
  "map_of (metrics (NewAnalyticsCollector labels db site)) ''device_rate''
     = Some (NewDesc ''device_rate'' ''Rating of device'' [''device''] labels)"
  "map_of (metrics (NewAnalyticsCollector labels db site)) ''entry_pages_rate''
     = Some (NewDesc ''entry_pages_rate'' ''Rating of entry pages'' [''page''] labels)"
  "map_of (metrics (NewAnalyticsCollector labels db site)) ''exit_pages_rate''
     = Some (NewDesc ''exit_pages_rate'' ''Rating of exit pages'' [''page''] labels)"
  by (simp_all add: NewAnalyticsCollector_def)

lemma new_collector_rates:
  "\<forall>x \<in> set (rate_metrics (NewAnalyticsCollector labels db site) ''page_rate'' m1
       @ rate_metrics (NewAnalyticsCollector labels db site) ''source_rate'' m2
       @ rate_metrics (NewAnalyticsCollector labels db site) ''device_rate'' m3
       @ rate_metrics (NewAnalyticsCollector labels db site) ''os_rate'' m4
       @ rate_metrics (NewAnalyticsCollector labels db site) ''browser_rate'' m5
       @ rate_metrics (NewAnalyticsCollector labels db site) ''entry_pages_rate'' m6
       @ rate_metrics (NewAnalyticsCollector labels db site) ''exit_pages_rate'' m7). \<not> isl x"
proof -
  have v: "length (variableLabels (NewDesc n h [l] labels)) = 1" for n h l
    by (simp add: NewDesc_def)
  note r = rate_metrics_ok [OF _ v]
  show ?thesis
    unfolding set_append ball_Un
    by (intro conjI r) (rule new_collector_lookup)+
qed

lemma new_collector_simple:
  "[MustNewConstMetric (NewAnalyticsCollector labels db site) ''unique_visitors_total''
      CounterValue (float64_of_int (UniqueVisitors st)) [],
    MustNewConstMetric (NewAnalyticsCollector labels db site) ''visits_total'' CounterValue
      (float64_of_int (TotalVisits st)) [],
    MustNewConstMetric (NewAnalyticsCollector labels db site) ''total_page_views'' CounterValue
      (float64_of_int (TotalPageViews st)) [],
    MustNewConstMetric (NewAnalyticsCollector labels db site) ''current_visitors'' CounterValue
      (float64_of_int (CurrentVisitors st)) [],
    MustNewConstMetric (NewAnalyticsCollector labels db site) ''bounce_rate'' GaugeValue
      (BounceRate st) []]
   = map Inr (simple_samples labels st)"
  by (simp add: MustNewConstMetric_def new_collector_lookup NewDesc_def simple_samples_def)

lemma Collect_metrics_ok:
  assumes "GetAnalyticsStats db site now = Inr st"
  shows "\<exists>rest. Collect_metrics (NewAnalyticsCollector labels db site) now
      = Inr (simple_samples labels st @ rest)"
proof -
  define c where "c = NewAnalyticsCollector labels db site"
  define rs where "rs = rate_metrics c ''page_rate'' (PagesRate st)
       @ rate_metrics c ''source_rate'' (SourcesRate st)
       @ rate_metrics c ''device_rate'' (DevicesRate st)
       @ rate_metrics c ''os_rate'' (OSsRate st)
       @ rate_metrics c ''browser_rate'' (BrowsersRate st)
       @ rate_metrics c ''entry_pages_rate'' (EntryPagesRate st)
       @ rate_metrics c ''exit_pages_rate'' (ExitPagesRate st)"
  have d: "database c = db" "domain c = site"
    by (simp_all add: c_def NewAnalyticsCollector_def)
  have r: "\<forall>x \<in> set rs. \<not> isl x"
    unfolding rs_def c_def by (rule new_collector_rates)
  have "Collect_metrics c now = send_all (map Inr (simple_samples labels st) @ rs)"
    unfolding Collect_metrics_def d assms rs_def
    using new_collector_simple [of labels db site st]
    by (simp add: c_def)
  also have "\<dots> = Inr (map projr (map Inr (simple_samples labels st) @ rs))"
    using r by (intro send_all_ok) auto
  also have "\<dots> = Inr (simple_samples labels st @ map projr rs)"
    by (simp add: comp_def)
  finally show ?thesis unfolding c_def by blast
qed

lemma rate_metrics_empty: "rate_metrics c key (Some []) = []"
  by (simp add: rate_metrics_def)

section \<open>The bounce rate\<close>

lemma all_visits_update:
  "length (all_visits (AList.update k v vm))
     + (case map_of vm k of None \<Rightarrow> 0 | Some w \<Rightarrow> length w)
   = length (all_visits vm) + length v"
  by (induction vm) (auto simp: all_visits_def)

lemma count_visit_one_more:
  assumes "count_visit vm e p = Inr vm'"
  shows "length (all_visits vm') \<le> length (all_visits vm) + 1"
proof (cases "map_of vm (HashedVisit e)")
  case None
  then have "vm' = AList.update (HashedVisit e) [new_visit p (Timestamp e)] vm"
    using assms by (simp add: count_visit_def)
  then show ?thesis
    using all_visits_update [of "HashedVisit e" "[new_visit p (Timestamp e)]" vm] None by simp
next
  case (Some v)
  then obtain v' where u: "vm' = AList.update (HashedVisit e) v' vm"
    and l: "length v' \<le> length v + 1"
    using assms by (auto simp: count_visit_def Let_def split: if_splits)
  show ?thesis
    using all_visits_update [of "HashedVisit e" v' vm] Some l by (simp add: u)
qed

lemma count_events_sessions_le:
  "count_events a es = Inr a' \<Longrightarrow>
     length (all_visits (visitsMap a')) \<le> length (all_visits (visitsMap a)) + length es"
proof (induction es arbitrary: a)
  case Nil
  then show ?case by simp
next
  case (Cons e es)
  from count_events_Cons_Inr [OF Cons.prems] obtain b
    where b: "count_event a e = Inr b" and r: "count_events b es = Inr a'" by blast
  from count_visit_one_more [OF count_event_Inr(6) [OF b]] Cons.IH [OF r]
  show ?case by simp
qed

lemma two_events_run:
  "GetAnalyticsStats (Some (fixed_store two_events)) ''example.com'' 0 = Inr two_events_stats"
  by code_simp

text \<open>
  Claim C2 says that the bounce rate lies in [0,1] whenever the page-view count is
  positive, and that it is flagged as ``no data'' when the count is 0. Sessions are
  opened by events of every \<open>Type\<close>, page views are counted only for \<open>pageview\<close>: a
  \<open>click\<close> of one visitor and a page view of another give two one-page sessions over
  one page view, the bounce rate 2.
\<close>

theorem bounce_rate_range_counterexample:
  "GetAnalyticsStats (Some (fixed_store two_events)) ''example.com'' 0 = Inr two_events_stats
   \<and> 0 < TotalPageViews two_events_stats
   \<and> BounceRate two_events_stats = Finite 2
   \<and> \<not> (2::real) \<le> 1"
  using two_events_run by (simp add: two_events_stats_def)

text \<open>
  Claim C2, amended. The bounce rate of a snapshot is the \<open>float64\<close> quotient of the
  number of sessions with one page and the total page-view count. When the page-view
  count is positive it is finite and not negative, and it is at most 1 when every
  stored event is a page view. When the page-view count is 0 it is NaN or positive
  infinity. The snapshot carries the value as it is, and \<open>Collect\<close> sends it as the
  value of the \<open>bounce_rate\<close> gauge, the fifth sample.
\<close>

theorem bounce_rate_value:
  assumes "GetAnalyticsStats (Some db) site now = Inr st" and "db site = Inr es"
  shows "\<exists>a r ms.
      count_events no_counters (sort_key Timestamp es) = Inr a
      \<and> BounceRate st
          = float64_div (int (length (filter (\<lambda>v. PagesVisited v = 1) (all_visits (visitsMap a)))))
              (TotalPageViews st)
      \<and> (0 < TotalPageViews st \<longrightarrow> BounceRate st = Finite r \<and> 0 \<le> r
            \<and> ((\<forall>e \<in> set es. Type e = ''pageview'') \<longrightarrow> r \<le> 1))
      \<and> (TotalPageViews st = 0 \<longrightarrow> BounceRate st = NaN \<or> BounceRate st = PosInf)
      \<and> Collect_metrics (NewAnalyticsCollector labels (Some db) site) now = Inr ms
      \<and> 4 < length ms
      \<and> ms ! 4 = \<lparr>desc = NewDesc ''bounce_rate'' ''Bounce rate in %'' [] labels,
            valType = GaugeValue, val = BounceRate st, labelValues = []\<rparr>"
proof -
  from assms obtain a where a: "count_events no_counters (sort_key Timestamp es) = Inr a"
    and st: "st = make_stats now a"
    by (auto elim!: GetAnalyticsStats_Inr)
  define n where "n = length (filter (\<lambda>v. PagesVisited v = 1) (all_visits (visitsMap a)))"
  define r where "r = real n / real_of_int (TotalPageViews st)"
  have pv: "TotalPageViews st = int (length (filter (\<lambda>e. Type e = ''pageview'') es))"
    by (simp add: st make_stats_def Let_def count_events_pageViewsCount [OF a]
        length_filter_sort_key no_counters_def)
  have b: "BounceRate st = float64_div (int n) (TotalPageViews st)"
    by (simp add: st make_stats_def Let_def count_sessions_onePageVisits n_def)
  have le: "n \<le> length es"
  proof -
    have "n \<le> length (all_visits (visitsMap a))" by (simp add: n_def)
    also have "\<dots> \<le> length es"
      using count_events_sessions_le [OF a] by (simp add: no_counters_def all_visits_def)
    finally show ?thesis .
  qed
  have pos: "BounceRate st = Finite r \<and> 0 \<le> r
      \<and> ((\<forall>e \<in> set es. Type e = ''pageview'') \<longrightarrow> r \<le> 1)"
    if p: "0 < TotalPageViews st"
  proof -
    have 1: "BounceRate st = Finite r" using p by (simp add: b float64_div_def r_def)
    have 2: "0 \<le> r" using p by (simp add: r_def)
    have 3: "r \<le> 1" if "\<forall>e \<in> set es. Type e = ''pageview''"
    proof -
      have "filter (\<lambda>e. Type e = ''pageview'') es = es" using that by simp
      then have "TotalPageViews st = int (length es)" by (simp add: pv)
      then show ?thesis using le p by (simp add: r_def)
    qed
    from 1 2 3 show ?thesis by blast
  qed
  have zero: "BounceRate st = NaN \<or> BounceRate st = PosInf" if "TotalPageViews st = 0"
    using that by (simp add: b float64_div_def)
  from Collect_metrics_ok [OF assms(1), of labels] obtain rest
    where c: "Collect_metrics (NewAnalyticsCollector labels (Some db) site) now
      = Inr (simple_samples labels st @ rest)" by blast
  have 4: "4 < length (simple_samples labels st @ rest)"
    by (simp add: simple_samples_def)
  have 5: "(simple_samples labels st @ rest) ! 4
      = \<lparr>desc = NewDesc ''bounce_rate'' ''Bounce rate in %'' [] labels,
            valType = GaugeValue, val = BounceRate st, labelValues = []\<rparr>"
    by (simp add: simple_samples_def)
  from a b pos zero c 4 5 show ?thesis
    unfolding n_def by blast
qed

text \<open>
  The three page views of one visitor: one of the two sessions has one page, the
  bounce rate is a third, and the scrape sends it.
\<close>

theorem bounce_rate_value_witness:
  "GetAnalyticsStats (Some (fixed_store three_views)) ''example.com'' 0 = Inr three_views_stats
   \<and> fixed_store three_views ''example.com'' = Inr three_views
   \<and> list_all (\<lambda>e. Type e = ''pageview'') three_views
   \<and> 0 < TotalPageViews three_views_stats
   \<and> BounceRate three_views_stats = Finite (1 / 3)
   \<and> (\<exists>ms. Collect_metrics (example_collector three_views) 0 = Inr ms
         \<and> val (ms ! 4) = Finite (1 / 3))"
proof -
  have s: "fixed_store three_views ''example.com'' = Inr three_views"
    by (rule fixed_store_lists)
  have p: "list_all (\<lambda>e. Type e = ''pageview'') three_views"
    by (simp add: three_views_def ev_def)
  have v: "0 < TotalPageViews three_views_stats"
    "BounceRate three_views_stats = Finite (1 / 3)"
    by (simp_all add: three_views_stats_def)
  from bounce_rate_value [OF three_views_run s, of "[(''domain'', ''example.com'')]"]
  obtain ms where "Collect_metrics (NewAnalyticsCollector [(''domain'', ''example.com'')]
        (Some (fixed_store three_views)) ''example.com'') 0 = Inr ms"
    and "ms ! 4 = \<lparr>desc = NewDesc ''bounce_rate'' ''Bounce rate in %'' []
            [(''domain'', ''example.com'')],
          valType = GaugeValue, val = BounceRate three_views_stats, labelValues = []\<rparr>"
    by blast
  then have "\<exists>ms. Collect_metrics (example_collector three_views) 0 = Inr ms
         \<and> val (ms ! 4) = Finite (1 / 3)"
    by (simp add: example_collector_def v)
  with three_views_run s p v show ?thesis by simp
qed

section \<open>A property without events\<close>

lemma no_events_run: "db site = Inr [] \<Longrightarrow> GetAnalyticsStats (Some db) site now = Inr no_events_stats"
  by (simp add: GetAnalyticsStats_def make_stats_def count_sessions_def no_counters_def
      no_totals_def float64_div_def no_events_stats_def)

lemma send_all_Inr: "send_all (map Inr ms) = Inr ms"
  by (induction ms) simp_all

lemma no_events_scrape:
  assumes "db site = Inr []"
  shows "Collect_metrics (NewAnalyticsCollector labels (Some db) site) now
      = Inr (simple_samples labels no_events_stats)"
proof -
  have m: "PagesRate no_events_stats = Some []" "SourcesRate no_events_stats = Some []"
    "DevicesRate no_events_stats = Some []" "OSsRate no_events_stats = Some []"
    "BrowsersRate no_events_stats = Some []" "EntryPagesRate no_events_stats = Some []"
    "ExitPagesRate no_events_stats = Some []"
    by (simp_all add: no_events_stats_def)
  have d: "database (NewAnalyticsCollector labels (Some db) site) = Some db"
    "domain (NewAnalyticsCollector labels (Some db) site) = site"
    by (simp_all add: NewAnalyticsCollector_def)
  show ?thesis
    unfolding Collect_metrics_def d no_events_run [where db = db and site = site, OF assms]
    by (simp add: m rate_metrics_empty new_collector_simple send_all_Inr)
qed

text \<open>
  Claim C4 says that with zero stored events the scrape skips the bounce-rate sample
  or marks it unavailable and never sends NaN as a raw value. \<open>Collect\<close> sends the
  bounce rate of the snapshot without a test: on an empty store the fifth sample is
  the \<open>bounce_rate\<close> gauge with the value NaN.
\<close>

theorem no_events_scrape_counterexample:
  "Collect_metrics (example_collector []) 0
     = Inr (simple_samples [(''domain'', ''example.com'')] no_events_stats)
   \<and> fqName (desc (simple_samples [(''domain'', ''example.com'')] no_events_stats ! 4))
       = ''bounce_rate''
   \<and> val (simple_samples [(''domain'', ''example.com'')] no_events_stats ! 4) = NaN"
proof -
  have "fixed_store [] ''example.com'' = Inr []" by (rule fixed_store_lists)
  from no_events_scrape [where db = "fixed_store []" and site = "''example.com''", OF this]
  show ?thesis
    by (simp add: example_collector_def simple_samples_def no_events_stats_def NewDesc_def)
qed

text \<open>
  Claim C4, amended. When the store lists no event for the property, the snapshot has
  all counts 0, the bounce rate NaN (0 divided by 0, with no other marking) and all
  seven maps present and empty; \<open>Collect\<close> then sends exactly the five samples without
  label values, the \<open>bounce_rate\<close> gauge carrying NaN, and no sample for the maps.
\<close>

theorem no_events_snapshot:
  assumes "db site = Inr []"
  shows "GetAnalyticsStats (Some db) site now =
      Inr \<lparr>UniqueVisitors = 0, TotalVisits = 0, TotalPageViews = 0, CurrentVisitors = 0,
           BounceRate = NaN,
           PagesRate = Some [], SourcesRate = Some [], DevicesRate = Some [],
           OSsRate = Some [], BrowsersRate = Some [], EntryPagesRate = Some [],
           ExitPagesRate = Some []\<rparr>
    \<and> Collect_metrics (NewAnalyticsCollector labels (Some db) site) now
        = Inr (simple_samples labels no_events_stats)
    \<and> length (simple_samples labels no_events_stats) = 5
    \<and> simple_samples labels no_events_stats ! 4
        = \<lparr>desc = NewDesc ''bounce_rate'' ''Bounce rate in %'' [] labels,
           valType = GaugeValue, val = NaN, labelValues = []\<rparr>"
  using no_events_run [where db = db and site = site and now = now, OF assms]
    no_events_scrape [where db = db and site = site and now = now and labels = labels, OF assms]
  by (simp add: no_events_stats_def simple_samples_def)

text \<open>The store that lists nothing for \<open>example.com\<close>.\<close>

theorem no_events_snapshot_witness:
  "fixed_store [] ''example.com'' = Inr []
   \<and> GetAnalyticsStats (Some (fixed_store [])) ''example.com'' 0 = Inr no_events_stats
   \<and> Collect_metrics (example_collector []) 0
       = Inr (simple_samples [(''domain'', ''example.com'')] no_events_stats)
   \<and> length (simple_samples [(''domain'', ''example.com'')] no_events_stats) = 5"
proof -
  have s: "fixed_store [] ''example.com'' = Inr []" by (rule fixed_store_lists)
  from no_events_snapshot [where db = "fixed_store []" and site = "''example.com''"
      and now = 0 and labels = "[(''domain'', ''example.com'')]", OF s] s
  show ?thesis by (simp add: example_collector_def no_events_stats_def)
qed

section \<open>The descriptors\<close>

lemma Describe_new: "Describe (NewAnalyticsCollector labels db site) = mset (descriptors labels)"
  by (simp add: Describe_def NewAnalyticsCollector_def descriptors_def)

text \<open>
  Claim C6 counts, among twelve descriptors, four simple counters, a gauge for the
  bounce rate, a gauge for the current visitors and seven labeled gauges (thirteen).
  The collector has five descriptors without a variable label, and \<open>Collect\<close> sends
  the \<open>current_visitors\<close> sample, the fourth, as a counter.
\<close>

theorem descriptor_kinds_counterexample:
  "size (Describe (example_collector [])) = 12
   \<and> size (filter_mset unlabeled (Describe (example_collector []))) = 5
   \<and> size (filter_mset unlabeled (Describe (example_collector []))) \<noteq> 4 + 1 + 1
   \<and> Collect_metrics (example_collector []) 0
       = Inr (simple_samples [(''domain'', ''example.com'')] no_events_stats)
   \<and> fqName (desc (simple_samples [(''domain'', ''example.com'')] no_events_stats ! 3))
       = ''current_visitors''
   \<and> valType (simple_samples [(''domain'', ''example.com'')] no_events_stats ! 3)
       = CounterValue"
proof -
  have "fixed_store [] ''example.com'' = Inr []" by (rule fixed_store_lists)
  from no_events_scrape [where db = "fixed_store []" and site = "''example.com''", OF this]
  have "Collect_metrics (example_collector []) 0
       = Inr (simple_samples [(''domain'', ''example.com'')] no_events_stats)"
    by (simp add: example_collector_def)
  moreover have "size (Describe (example_collector [])) = 12"
    by (simp add: example_collector_def Describe_new descriptors_def)
  moreover have "size (filter_mset unlabeled (Describe (example_collector []))) = 5"
    by (simp add: example_collector_def Describe_new descriptors_def unlabeled_def NewDesc_def)
  ultimately show ?thesis
    by (simp add: simple_samples_def NewDesc_def)
qed

text \<open>
  Claim C6, amended. \<open>Describe\<close> sends the twelve descriptors fixed by the
  constructor: five without a variable label (unique visitors, visits, page views,
  current visitors, bounce rate) and seven with one variable label for the
  categorical rates, with twelve different names, each carrying the constant labels
  given to the constructor. What it sends depends on neither the store nor the
  property, so it is the same at every call on the same collector.
\<close>

theorem describe_fixed_descriptors:
  "Describe (NewAnalyticsCollector labels db site) = mset (descriptors labels)
   \<and> size (Describe (NewAnalyticsCollector labels db site)) = 12
   \<and> size (filter_mset unlabeled (Describe (NewAnalyticsCollector labels db site))) = 5
   \<and> size (filter_mset one_label (Describe (NewAnalyticsCollector labels db site))) = 7
   \<and> image_mset constLabels (Describe (NewAnalyticsCollector labels db site))
       = replicate_mset 12 labels
   \<and> distinct (map fqName (descriptors labels))
   \<and> Describe (NewAnalyticsCollector labels db' site')
       = Describe (NewAnalyticsCollector labels db site)"
proof -
  have 1: "size (mset (descriptors labels)) = 12"
    by (simp add: descriptors_def)
  have 2: "size (filter_mset unlabeled (mset (descriptors labels))) = 5"
    by (simp add: descriptors_def unlabeled_def NewDesc_def)
  have 3: "size (filter_mset one_label (mset (descriptors labels))) = 7"
    by (simp add: descriptors_def one_label_def NewDesc_def)
  have 4: "image_mset constLabels (mset (descriptors labels)) = replicate_mset 12 labels"
    by (simp add: descriptors_def NewDesc_def numeral_eq_Suc)
  have 5: "distinct (map fqName (descriptors labels))"
    by (simp add: descriptors_def NewDesc_def)
  from 1 2 3 4 5 show ?thesis
    by (simp add: Describe_new)
qed

end
